theory Spec2Isabelle
  imports Complex_Main "HOL-Library.Sublist" "HOL-Library.Multiset"
begin

section \<open>Python strings\<close>

text \<open>
  A Python \<open>str\<close> is a \<open>string\<close>: one \<open>char\<close> for each code point (code points below
  256). \<open>len\<close> is \<open>length\<close>, \<open>a in b\<close> is \<open>sublist a b\<close>, \<open>s.startswith(p)\<close> is
  \<open>prefix p s\<close>, and \<open>s.count(c)\<close> for a one-character \<open>c\<close> is \<open>count_list s c\<close>.
\<close>

text \<open>\<open>str.isspace\<close> on one code point; the same set is the \<open>\s\<close> of \<open>re\<close> on a \<open>str\<close>.\<close>

definition is_space :: "char \<Rightarrow> bool" where
  "is_space c =
     (let n = (of_char c :: nat)
      in (9 \<le> n \<and> n \<le> 13) \<or> (28 \<le> n \<and> n \<le> 32) \<or> n = 133 \<or> n = 160)"

text \<open>\<open>s.strip()\<close>\<close>

definition strip :: "string \<Rightarrow> string" where
  "strip s = rev (dropWhile is_space (rev (dropWhile is_space s)))"

text \<open>\<open>s.startswith((p1, p2, ...))\<close>\<close>

definition startswith :: "string \<Rightarrow> string list \<Rightarrow> bool" where
  "startswith s ps = list_ex (\<lambda>p. prefix p s) ps"

text \<open>\<open>s.split(c)\<close> for a one-character separator, reading \<open>s\<close> from the left with
  the field read so far: never the empty list.\<close>

fun split_fields :: "char \<Rightarrow> string \<Rightarrow> string \<Rightarrow> string list" where
  "split_fields c field [] = [field]"
| "split_fields c field (x # xs) =
     (if x = c then field # split_fields c [] xs else split_fields c (field @ [x]) xs)"

definition split_on :: "char \<Rightarrow> string \<Rightarrow> string list" where
  "split_on c s = split_fields c [] s"

text \<open>\<open>s.split()\<close>: the maximal runs of characters that are not whitespace.\<close>

fun split_words :: "string \<Rightarrow> string \<Rightarrow> string list" where
  "split_words word [] = (if word = [] then [] else [word])"
| "split_words word (c # cs) =
     (if is_space c
      then (if word = [] then split_words [] cs else word # split_words [] cs)
      else split_words (word @ [c]) cs)"

definition split_ws :: "string \<Rightarrow> string list" where
  "split_ws s = split_words [] s"

text \<open>\<open>s.lower()\<close> and \<open>s.replace(a, b)\<close> for one-character \<open>a\<close>, \<open>b\<close>. Below 256
  the capitals are \<open>A\<close> to \<open>Z\<close> and the code points \<open>0xC0\<close> to \<open>0xDE\<close> but \<open>0xD7\<close>,
  the multiplication sign; the small letter of each is 32 further.\<close>

definition lower_char :: "char \<Rightarrow> char" where
  "lower_char c =
     (let n = (of_char c :: nat)
      in if (65 \<le> n \<and> n \<le> 90) \<or> (192 \<le> n \<and> n \<le> 222 \<and> n \<noteq> 215)
         then char_of (n + 32) else c)"

definition lower :: "string \<Rightarrow> string" where
  "lower s = map lower_char s"

definition replace_char :: "char \<Rightarrow> char \<Rightarrow> string \<Rightarrow> string" where
  "replace_char a b s = map (\<lambda>c. if c = a then b else c) s"

text \<open>\<open>str(n)\<close> of an integer, as an f-string prints it.\<close>

definition digit_char :: "nat \<Rightarrow> char" where
  "digit_char d = char_of (48 + d)"

fun str_of_nat :: "nat \<Rightarrow> string" where
  "str_of_nat n =
     (if n < 10 then [digit_char n] else str_of_nat (n div 10) @ [digit_char (n mod 10)])"

definition str_of_int :: "int \<Rightarrow> string" where
  "str_of_int k = (if k < 0 then CHR ''-'' # str_of_nat (nat (- k)) else str_of_nat (nat k))"

text \<open>The exceptions the analyzer's own expressions can raise.\<close>

datatype error = IndexError | AttributeError | ZeroDivisionError | IOError

text \<open>\<open>xs[k]\<close>: a negative index counts from the end.\<close>

definition getitem :: "'a list \<Rightarrow> int \<Rightarrow> error + 'a" where
  "getitem xs k =
     (let n = int (length xs); j = (if k < 0 then n + k else k)
      in if 0 \<le> j \<and> j < n then Inr (xs ! nat j) else Inl IndexError)"

section \<open>Regular expressions\<close>

text \<open>
  The patterns of the analyzer use literals, \<open>.\<close>, \<open>\s\<close>, character sets, sequencing,
  the greedy \<open>*\<close>, \<open>+\<close>, \<open>?\<close>, the lazy \<open>+?\<close>, \<open>^\<close> and one capturing group. A matcher
  state is the text of group 1 (if set) and the input still to read; \<open>rmatch\<close> lists the
  states in which a pattern can finish, in the order in which the backtracking matcher
  of \<open>re\<close> tries them. The first number is the length of the whole subject, so that
  \<open>^\<close> holds at its start only. A repetition gives up an iteration that reads nothing.
\<close>

datatype citem = Ch char | Rng char char

datatype atom = Lit char | AnyChar | WS | CSet "citem list" | NSet "citem list"

datatype regex =
    Eps
  | Atom atom
  | Bos
  | Cat regex regex
  | Opt regex
  | Star regex
  | LazyStar regex
  | Group regex

fun in_item :: "char \<Rightarrow> citem \<Rightarrow> bool" where
  "in_item c (Ch d) = (c = d)"
| "in_item c (Rng a b) = ((of_char a :: nat) \<le> of_char c \<and> (of_char c :: nat) \<le> of_char b)"

fun accepts :: "atom \<Rightarrow> char \<Rightarrow> bool" where
  "accepts (Lit d) c = (c = d)"
| "accepts AnyChar c = (c \<noteq> CHR 0x0A)"
| "accepts WS c = is_space c"
| "accepts (CSet items) c = list_ex (in_item c) items"
| "accepts (NSet items) c = (\<not> list_ex (in_item c) items)"

type_synonym mstate = "string option \<times> string"

function rmatch :: "nat \<Rightarrow> regex \<Rightarrow> mstate \<Rightarrow> mstate list" where
  "rmatch n Eps (g, s) = [(g, s)]"
| "rmatch n (Atom a) (g, s) =
     (case s of [] \<Rightarrow> [] | c # cs \<Rightarrow> if accepts a c then [(g, cs)] else [])"
| "rmatch n Bos (g, s) = (if length s = n then [(g, s)] else [])"
| "rmatch n (Cat r1 r2) (g, s) = concat (map (rmatch n r2) (rmatch n r1 (g, s)))"
| "rmatch n (Opt r) (g, s) = rmatch n r (g, s) @ [(g, s)]"
| "rmatch n (Star r) (g, s) =
     concat (map (\<lambda>st. if length (snd st) < length s then rmatch n (Star r) st else [])
                 (rmatch n r (g, s))) @ [(g, s)]"
| "rmatch n (LazyStar r) (g, s) =
     (g, s) # concat (map (\<lambda>st. if length (snd st) < length s
                                 then rmatch n (LazyStar r) st else [])
                          (rmatch n r (g, s)))"
| "rmatch n (Group r) (g, s) =
     map (\<lambda>st. (Some (take (length s - length (snd st)) s), snd st)) (rmatch n r (g, s))"
  by pat_completeness auto
termination
  by (relation "measures [\<lambda>(n, r, st). size r, \<lambda>(n, r, st). length (snd st)]") auto

text \<open>\<open>r+\<close>, \<open>r+?\<close>, a sequence of patterns and a literal string.\<close>

definition Plus :: "regex \<Rightarrow> regex" where
  "Plus r = Cat r (Star r)"

definition LazyPlus :: "regex \<Rightarrow> regex" where
  "LazyPlus r = Cat r (LazyStar r)"

fun seq :: "regex list \<Rightarrow> regex" where
  "seq [] = Eps"
| "seq [r] = r"
| "seq (r # rs) = Cat r (seq rs)"

definition lit :: "string \<Rightarrow> regex" where
  "lit s = seq (map (\<lambda>c. Atom (Lit c)) s)"

text \<open>\<open>p.match(s)\<close>: the first way to finish from the start of \<open>s\<close>; the result is the
  match object, of which the analyzer reads \<open>group(1)\<close> only.\<close>

definition re_match :: "regex \<Rightarrow> string \<Rightarrow> string option option" where
  "re_match p s = (case rmatch (length s) p (None, s) of [] \<Rightarrow> None | st # _ \<Rightarrow> Some (fst st))"

text \<open>\<open>p.search(s)\<close>, read as a truth value: a match starting at some position.\<close>

fun search_from :: "nat \<Rightarrow> regex \<Rightarrow> string \<Rightarrow> bool" where
  "search_from n p [] = (rmatch n p (None, []) \<noteq> [])"
| "search_from n p (c # cs) = (rmatch n p (None, c # cs) \<noteq> [] \<or> search_from n p cs)"

definition re_search :: "regex \<Rightarrow> string \<Rightarrow> bool" where
  "re_search p s = search_from (length s) p s"

section \<open>The analyzer's data\<close>

record CodeIssue =
  line_number :: nat
  issue_type :: string
  description :: string
  code_snippet :: string

text \<open>A float is kept as the arithmetic that produces it, the quotient \<open>a / b\<close> of two
  integers or the product \<open>x * k\<close> of a float and an integer: it stands for the double
  Python computes, whose rounding is not modelled, so that two floats are equal here
  only when they are computed in the same way. A metric is an integer or a float.\<close>

datatype pyfloat = FloatDiv int int | FloatMul pyfloat int

datatype number = IntNum int | FloatNum pyfloat

record FileAnalysis =
  file_path :: string
  issues :: "CodeIssue list"
  metrics :: "(string \<times> number) list"

text \<open>A \<open>dict\<close> keeps its keys in the order of their first insertion: an association
  list with one entry for each key. \<open>dict_upd k f d\<close> is \<open>d[k] = f(d.get(k))\<close>.\<close>

fun dict_upd :: "'k \<Rightarrow> ('v option \<Rightarrow> 'v) \<Rightarrow> ('k \<times> 'v) list \<Rightarrow> ('k \<times> 'v) list" where
  "dict_upd k f [] = [(k, f None)]"
| "dict_upd k f ((k', v) # d) =
     (if k' = k then (k', f (Some v)) # d else (k', v) # dict_upd k f d)"

text \<open>\<open>d[k].append(v)\<close> on a \<open>defaultdict(list)\<close>, \<open>d[k] += 1\<close> on a
  \<open>defaultdict(int)\<close>, and \<open>d[k] = v\<close>.\<close>

definition dict_append :: "'k \<Rightarrow> 'v \<Rightarrow> ('k \<times> 'v list) list \<Rightarrow> ('k \<times> 'v list) list" where
  "dict_append k v d = dict_upd k (\<lambda>old. (case old of None \<Rightarrow> [] | Some vs \<Rightarrow> vs) @ [v]) d"

definition dict_incr :: "'k \<Rightarrow> ('k \<times> nat) list \<Rightarrow> ('k \<times> nat) list" where
  "dict_incr k d = dict_upd k (\<lambda>old. (case old of None \<Rightarrow> 0 | Some c \<Rightarrow> c) + 1) d"

definition dict_set :: "'k \<Rightarrow> 'v \<Rightarrow> ('k \<times> 'v) list \<Rightarrow> ('k \<times> 'v) list" where
  "dict_set k v d = dict_upd k (\<lambda>old. v) d"

definition comment_markers :: "string list" where
  "comment_markers = [''//'', ''/*'', ''*'']"

section \<open>Duplication\<close>

text \<open>The first loop of \<open>_detect_duplicate_code\<close>; \<open>i\<close> is the index \<open>enumerate\<close> gives
  to the first line of the list.\<close>

fun collect_blocks ::
  "nat \<Rightarrow> string list \<Rightarrow> (string \<times> nat list) list \<Rightarrow> (string \<times> nat list) list" where
  "collect_blocks i [] code_blocks = code_blocks"
| "collect_blocks i (line # rest) code_blocks =
     (let stripped = strip line
      in collect_blocks (i + 1) rest
           (if stripped \<noteq> [] \<and> \<not> startswith stripped comment_markers
            then dict_append stripped (i + 1) code_blocks
            else code_blocks))"

text \<open>The body of the second loop, for one item of \<open>code_blocks\<close>.\<close>

definition block_issues :: "string \<times> nat list \<Rightarrow> CodeIssue list" where
  "block_issues item =
     (case item of (code, lines) \<Rightarrow>
        if length lines > 1 \<and> length code > 20
        then map (\<lambda>line.
               \<lparr>line_number = line,
                issue_type = ''Duplication'',
                description =
                  ''Duplicate code found (appears '' @ str_of_nat (length lines) @ '' times)'',
                code_snippet = code\<rparr>) lines
        else [])"

definition detect_duplicate_code :: "string list \<Rightarrow> string \<Rightarrow> CodeIssue list" where
  "detect_duplicate_code content path =
     concat (map block_issues (collect_blocks 0 content []))"

section \<open>Unused imports\<close>

definition quote_chars :: "citem list" where
  "quote_chars = [Ch (CHR 0x27), Ch (CHR 0x22)]"

definition letters :: "citem list" where
  "letters = [Rng CHR ''a'' CHR ''z'', Rng CHR ''A'' CHR ''Z'']"

text \<open>\<^verbatim>\<open>^import\s+['"](.+?)['"]\<close>\<close>

definition import_pattern :: regex where
  "import_pattern =
     seq [Bos, lit ''import'', Plus (Atom WS), Atom (CSet quote_chars),
          Group (LazyPlus (Atom AnyChar)), Atom (CSet quote_chars)]"

text \<open>The first pass; an entry is the line number and \<open>match.group(1)\<close>.\<close>

fun collect_imports :: "nat \<Rightarrow> string list \<Rightarrow> (nat \<times> string option) list" where
  "collect_imports i [] = []"
| "collect_imports i (line # rest) =
     (case re_match import_pattern (strip line) of
        None \<Rightarrow> collect_imports (i + 1) rest
      | Some group1 \<Rightarrow> (i + 1, group1) # collect_imports (i + 1) rest)"

text \<open>\<open>import_stmt.split('/')[-1].split('.')[0]\<close>\<close>

definition import_name_of :: "string \<Rightarrow> string" where
  "import_name_of import_stmt = hd (split_on CHR ''.'' (last (split_on CHR ''/'' import_stmt)))"

text \<open>The inner loop over all the lines of the file: the value of \<open>used\<close> after it.\<close>

definition import_used :: "string \<Rightarrow> string list \<Rightarrow> bool" where
  "import_used import_name content =
     list_ex (\<lambda>line. sublist (import_name @ ''.'') line
                   \<or> sublist ('' '' @ import_name @ ''('') line) content"

text \<open>The finding the second pass appends.\<close>

definition unused_import_issue :: "nat \<Rightarrow> string \<Rightarrow> string \<Rightarrow> CodeIssue" where
  "unused_import_issue line_num import_stmt snippet =
     \<lparr>line_number = line_num, issue_type = ''Unused Import'',
      description = ''Unused import: '' @ import_stmt,
      code_snippet = snippet\<rparr>"

text \<open>The second pass. A group that is not set has no \<open>split\<close>.\<close>

fun check_imports :: "string list \<Rightarrow> (nat \<times> string option) list \<Rightarrow> error + CodeIssue list" where
  "check_imports content [] = Inr []"
| "check_imports content ((line_num, group1) # rest) =
     (case group1 of
        None \<Rightarrow> Inl AttributeError
      | Some import_stmt \<Rightarrow>
          if import_used (import_name_of import_stmt) content
          then check_imports content rest
          else (case getitem content (int line_num - 1) of
                  Inl e \<Rightarrow> Inl e
                | Inr line \<Rightarrow>
                    (case check_imports content rest of
                       Inl e \<Rightarrow> Inl e
                     | Inr found \<Rightarrow>
                         Inr (unused_import_issue line_num import_stmt (strip line) # found))))"

definition detect_unused_imports :: "string list \<Rightarrow> error + CodeIssue list" where
  "detect_unused_imports content = check_imports content (collect_imports 0 content)"

section \<open>Long methods\<close>

text \<open>\<^verbatim>\<open>^\s*(?:@[a-zA-Z]+\s+)*[a-zA-Z]+\s+[a-zA-Z]+\s*\([^)]*\)\s*[a-zA-Z]*\s*\{?\<close>\<close>

definition method_pattern :: regex where
  "method_pattern =
     seq [Bos, Star (Atom WS),
          Star (seq [Atom (Lit CHR ''@''), Plus (Atom (CSet letters)), Plus (Atom WS)]),
          Plus (Atom (CSet letters)), Plus (Atom WS), Plus (Atom (CSet letters)),
          Star (Atom WS), Atom (Lit CHR ''(''), Star (Atom (NSet [Ch CHR '')''])),
          Atom (Lit CHR '')''), Star (Atom WS), Star (Atom (CSet letters)),
          Star (Atom WS), Opt (Atom (Lit CHR ''{''))]"

text \<open>The variables of the loop.\<close>

record lm_state =
  lm_issues :: "CodeIssue list"
  method_start :: "nat option"
  brace_count :: int

text \<open>What the loop adds to \<open>brace_count\<close> on a line, and the length it computes for
  a method that started on line \<open>start\<close> and ends on the line of index \<open>i\<close>.\<close>

definition brace_delta :: "string \<Rightarrow> int" where
  "brace_delta line_text = int (count_list line_text CHR ''{'') - int (count_list line_text CHR ''}'')"

definition method_length :: "nat \<Rightarrow> nat \<Rightarrow> int" where
  "method_length i start = int i + 1 - int start"

text \<open>The finding the loop appends when a method ends.\<close>

definition long_method_issue :: "nat \<Rightarrow> int \<Rightarrow> string \<Rightarrow> CodeIssue" where
  "long_method_issue start len snippet =
     \<lparr>line_number = start, issue_type = ''Long Method'',
      description = ''Method is too long ('' @ str_of_int len @ '' lines)'',
      code_snippet = snippet\<rparr>"

text \<open>One iteration of the loop, on the line of index \<open>i\<close>.\<close>

definition long_step :: "string list \<Rightarrow> nat \<Rightarrow> string \<Rightarrow> lm_state \<Rightarrow> error + lm_state" where
  "long_step content i line st =
     (let line_text = strip line;
          st1 = (if method_start st = None \<and> re_match method_pattern line_text \<noteq> None
                 then st\<lparr>method_start := Some (i + 1), brace_count := 0\<rparr>
                 else st)
      in case method_start st1 of
           None \<Rightarrow> Inr st1
         | Some start \<Rightarrow>
             (let st2 = st1\<lparr>brace_count := brace_count st1 + brace_delta line_text\<rparr>
              in if brace_count st2 \<le> 0
                 then (if method_length i start > 20
                       then (case getitem content (int start - 1) of
                               Inl e \<Rightarrow> Inl e
                             | Inr first \<Rightarrow>
                                 Inr (st2\<lparr>lm_issues := lm_issues st2 @
                                            [long_method_issue start (method_length i start)
                                               (strip first)],
                                          method_start := None\<rparr>))
                       else Inr (st2\<lparr>method_start := None\<rparr>))
                 else Inr st2))"

fun long_loop :: "string list \<Rightarrow> nat \<Rightarrow> string list \<Rightarrow> lm_state \<Rightarrow> error + lm_state" where
  "long_loop content i [] st = Inr st"
| "long_loop content i (line # rest) st =
     (case long_step content i line st of
        Inl e \<Rightarrow> Inl e
      | Inr st' \<Rightarrow> long_loop content (i + 1) rest st')"

definition detect_long_methods :: "string list \<Rightarrow> error + CodeIssue list" where
  "detect_long_methods content =
     (case long_loop content 0 content \<lparr>lm_issues = [], method_start = None, brace_count = 0\<rparr> of
        Inl e \<Rightarrow> Inl e
      | Inr st \<Rightarrow> Inr (lm_issues st))"

section \<open>Dead code\<close>

text \<open>\<^verbatim>\<open>^\s*[_a-zA-Z]+\s+_[a-zA-Z]+\s*\([^)]*\)\s*\{?\<close>\<close>

definition private_method_pattern :: regex where
  "private_method_pattern =
     seq [Bos, Star (Atom WS), Plus (Atom (CSet (Ch CHR ''_'' # letters))), Plus (Atom WS),
          Atom (Lit CHR ''_''), Plus (Atom (CSet letters)), Star (Atom WS),
          Atom (Lit CHR ''(''), Star (Atom (NSet [Ch CHR '')''])), Atom (Lit CHR '')''),
          Star (Atom WS), Opt (Atom (Lit CHR ''{''))]"

text \<open>\<open>line_text.split('(')[0].split()[-1]\<close>\<close>

definition method_name_of :: "string \<Rightarrow> error + string" where
  "method_name_of line_text = getitem (split_ws (hd (split_on CHR ''('' line_text))) (- 1)"

text \<open>The inner loop over all the lines of the file: the value of \<open>called\<close> after it.\<close>

definition is_called :: "string \<Rightarrow> string \<Rightarrow> string list \<Rightarrow> bool" where
  "is_called method_name line content =
     list_ex (\<lambda>other_line. sublist (method_name @ ''('') other_line \<and> other_line \<noteq> line) content"

text \<open>The finding the loop appends for a method that is not called.\<close>

definition dead_code_issue :: "nat \<Rightarrow> string \<Rightarrow> string \<Rightarrow> CodeIssue" where
  "dead_code_issue n method_name line_text =
     \<lparr>line_number = n, issue_type = ''Dead Code'',
      description =
        ''Private method '' @ [CHR 0x27] @ method_name @ [CHR 0x27] @ '' is never called'',
      code_snippet = line_text\<rparr>"

fun dead_loop :: "string list \<Rightarrow> nat \<Rightarrow> string list \<Rightarrow> error + CodeIssue list" where
  "dead_loop content i [] = Inr []"
| "dead_loop content i (line # rest) =
     (let line_text = strip line
      in if re_match private_method_pattern line_text \<noteq> None
         then (case method_name_of line_text of
                 Inl e \<Rightarrow> Inl e
               | Inr method_name \<Rightarrow>
                   (case dead_loop content (i + 1) rest of
                      Inl e \<Rightarrow> Inl e
                    | Inr found \<Rightarrow>
                        Inr ((if is_called method_name line content then []
                              else [dead_code_issue (i + 1) method_name line_text]) @ found)))
         else dead_loop content (i + 1) rest)"

definition detect_dead_code :: "string list \<Rightarrow> error + CodeIssue list" where
  "detect_dead_code content = dead_loop content 0 content"

section \<open>Potential bugs\<close>

text \<open>\<^verbatim>\<open>!\s*=\s*null\<close> and \<^verbatim>\<open>catch\s*\([^)]*\)\s*\{\s*\}\<close>\<close>

definition null_check_pattern :: regex where
  "null_check_pattern =
     seq [Atom (Lit CHR ''!''), Star (Atom WS), Atom (Lit CHR ''=''), Star (Atom WS), lit ''null'']"

definition empty_catch_pattern :: regex where
  "empty_catch_pattern =
     seq [lit ''catch'', Star (Atom WS), Atom (Lit CHR ''(''), Star (Atom (NSet [Ch CHR '')''])),
          Atom (Lit CHR '')''), Star (Atom WS), Atom (Lit CHR ''{''), Star (Atom WS),
          Atom (Lit CHR ''}'')]"

definition null_check_issue :: "nat \<Rightarrow> string \<Rightarrow> CodeIssue" where
  "null_check_issue n line_text =
     \<lparr>line_number = n, issue_type = ''Potential Bug'',
      description = ''Null check without null-aware operator (?.)'',
      code_snippet = line_text\<rparr>"

definition empty_catch_issue :: "nat \<Rightarrow> string \<Rightarrow> CodeIssue" where
  "empty_catch_issue n line_text =
     \<lparr>line_number = n, issue_type = ''Potential Bug'',
      description = ''Empty catch block - exceptions should be handled properly'',
      code_snippet = line_text\<rparr>"

text \<open>The body of the loop, on the line of index \<open>i\<close>: what it appends.\<close>

definition bug_step :: "nat \<Rightarrow> string \<Rightarrow> CodeIssue list" where
  "bug_step i line =
     (let line_text = strip line
      in (if re_search null_check_pattern line_text \<and> CHR ''?'' \<notin> set line_text
          then [null_check_issue (i + 1) line_text] else [])
       @ (if re_search empty_catch_pattern line_text
          then [empty_catch_issue (i + 1) line_text] else []))"

fun bug_loop :: "nat \<Rightarrow> string list \<Rightarrow> CodeIssue list" where
  "bug_loop i [] = []"
| "bug_loop i (line # rest) = bug_step i line @ bug_loop (i + 1) rest"

definition detect_potential_bugs :: "string list \<Rightarrow> CodeIssue list" where
  "detect_potential_bugs content = bug_loop 0 content"

section \<open>Metrics and the analysis of a project\<close>

text \<open>\<open>a / b\<close> on integers: it raises on a zero divisor and is a float otherwise.\<close>

definition truediv :: "int \<Rightarrow> int \<Rightarrow> error + pyfloat" where
  "truediv a b = (if b = 0 then Inl ZeroDivisionError else Inr (FloatDiv a b))"

definition is_code_line :: "string \<Rightarrow> bool" where
  "is_code_line line = (strip line \<noteq> [] \<and> \<not> startswith (strip line) comment_markers)"

definition is_comment_line :: "string \<Rightarrow> bool" where
  "is_comment_line line = startswith (strip line) comment_markers"

definition count_key :: "string \<Rightarrow> string" where
  "count_key t = replace_char CHR '' '' CHR ''_'' (lower t) @ ''_count''"

definition count_issues :: "CodeIssue list \<Rightarrow> (string \<times> nat) list" where
  "count_issues found = fold (\<lambda>issue counts. dict_incr (issue_type issue) counts) found []"

definition calculate_metrics ::
  "string list \<Rightarrow> CodeIssue list \<Rightarrow> error + (string \<times> number) list" where
  "calculate_metrics content found =
     (let total_lines = length content;
          code_lines = length (filter is_code_line content);
          comment_lines = length (filter is_comment_line content);
          issue_counts = count_issues found
      in case (if code_lines \<noteq> 0
               then (case truediv (int comment_lines) (int code_lines) of
                       Inl e \<Rightarrow> Inl e
                     | Inr q \<Rightarrow> Inr (FloatNum (FloatMul q 100)))
               else Inr (IntNum 0)) of
           Inl e \<Rightarrow> Inl e
         | Inr density \<Rightarrow>
             Inr (fold (\<lambda>(t, n) m. dict_set (count_key t) (IntNum (int n)) m) issue_counts
                    [(''total_lines'', IntNum (int total_lines)),
                     (''code_lines'', IntNum (int code_lines)),
                     (''comment_lines'', IntNum (int comment_lines)),
                     (''comment_density'', density)]))"

text \<open>The body of the loop of \<open>analyze_flutter_project\<close> once the lines are read.\<close>

definition analyze_file :: "string \<Rightarrow> string list \<Rightarrow> error + FileAnalysis" where
  "analyze_file path content =
     (let dup = detect_duplicate_code content path
      in case detect_unused_imports content of
           Inl e \<Rightarrow> Inl e
         | Inr unused \<Rightarrow>
        (case detect_long_methods content of
           Inl e \<Rightarrow> Inl e
         | Inr long \<Rightarrow>
        (case detect_dead_code content of
           Inl e \<Rightarrow> Inl e
         | Inr dead \<Rightarrow>
        (let found = dup @ unused @ long @ dead @ detect_potential_bugs content
         in case calculate_metrics content found of
              Inl e \<Rightarrow> Inl e
            | Inr m \<Rightarrow> Inr \<lparr>file_path = path, issues = found, metrics = m\<rparr>))))"

text \<open>The files are a map from a path to the lines \<open>readlines\<close> returns; a path that
  cannot be read raises.\<close>

fun analyze_flutter_project ::
  "(string \<rightharpoonup> string list) \<Rightarrow> string list \<Rightarrow> (string \<times> FileAnalysis) list
     \<Rightarrow> error + (string \<times> FileAnalysis) list" where
  "analyze_flutter_project files [] results = Inr results"
| "analyze_flutter_project files (path # paths) results =
     (case files path of
        None \<Rightarrow> Inl IOError
      | Some content \<Rightarrow>
          (case analyze_file path content of
             Inl e \<Rightarrow> Inl e
           | Inr fa \<Rightarrow> analyze_flutter_project files paths (dict_set path fa results)))"


section \<open>The duplication pass as the specification words it\<close>

text \<open>A line takes part when its trimmed text is not blank and does not begin with a
  comment marker; its group is the lines with the same trimmed text. Every line of a
  group of more than one line whose trimmed text is longer than 20 characters gets one
  finding, with the size of the group in the description; no other line gets one.\<close>

definition dup_eligible :: "string \<Rightarrow> bool" where
  "dup_eligible t = (t \<noteq> [] \<and> \<not> startswith t comment_markers)"

definition dup_group_size :: "string list \<Rightarrow> string \<Rightarrow> nat" where
  "dup_group_size content t = length (filter (\<lambda>line. strip line = t) content)"

definition dup_finding :: "nat \<Rightarrow> string \<Rightarrow> nat \<Rightarrow> CodeIssue" where
  "dup_finding n t size_of_group =
     \<lparr>line_number = n, issue_type = ''Duplication'',
      description = ''Duplicate code found (appears '' @ str_of_nat size_of_group @ '' times)'',
      code_snippet = t\<rparr>"

definition spec_duplicates :: "string list \<Rightarrow> CodeIssue list" where
  "spec_duplicates content =
     concat (map (\<lambda>(i, line).
                    if dup_eligible (strip line) \<and> 1 < dup_group_size content (strip line)
                       \<and> 20 < length (strip line)
                    then [dup_finding (i + 1) (strip line) (dup_group_size content (strip line))]
                    else [])
                 (enumerate 0 content))"

section \<open>Notions used in the statements and the proofs\<close>

text \<open>The entries of a dictionary of lists, one pair for each element of each list.\<close>

definition dict_pairs :: "('k \<times> 'v list) list \<Rightarrow> ('k \<times> 'v) list" where
  "dict_pairs d = concat (map (\<lambda>(k, vs). map (Pair k) vs) d)"

text \<open>The trimmed text and the line number of each line that takes part in the
  duplication pass, from the line of index \<open>i\<close> on.\<close>

definition eligible_pairs :: "nat \<Rightarrow> string list \<Rightarrow> (string \<times> nat) list" where
  "eligible_pairs i content =
     map (\<lambda>(j, line). (strip line, j + 1))
         (filter (\<lambda>(j, line). dup_eligible (strip line)) (enumerate i content))"

text \<open>The issue types of the five passes.\<close>

definition issue_types :: "string set" where
  "issue_types =
     {''Duplication'', ''Unused Import'', ''Long Method'', ''Dead Code'', ''Potential Bug''}"


section \<open>The unused-import pass on the import line itself\<close>

text \<open>
  Claim C1. A file whose only line is \<^verbatim>\<open>import 'package:app/widgets/button.dart';\<close> is
  to give one Unused Import finding at line 1. The pass scans every line for
  \<^verbatim>\<open>button.\<close>, the import line among them, and that line holds \<^verbatim>\<open>button.dart\<close>: the
  import counts as used and the pass returns no finding. With a second line
  \<^verbatim>\<open>button.onTap();\<close> it returns none either.
\<close>

theorem unused_import_button_alone:
  "detect_unused_imports
     [''import '' @ [CHR 0x27] @ ''package:app/widgets/button.dart'' @ [CHR 0x27] @ '';''] = Inr []
   \<and> detect_unused_imports
     [''import '' @ [CHR 0x27] @ ''package:app/widgets/button.dart'' @ [CHR 0x27] @ '';'',
      ''button.onTap();''] = Inr []"
  by code_simp

section \<open>The length of a method\<close>



section \<open>Facts about strings and the matcher\<close>

lemma sublist_strip: "sublist (strip s) s"
proof -
  have "sublist (rev (dropWhile is_space (rev (dropWhile is_space s)))) (dropWhile is_space s)"
    by (metis sublist_dropWhile sublist_rev_left)
  then show ?thesis
    unfolding strip_def by (meson sublist_dropWhile sublist_order.order_trans)
qed

lemma split_fields_not_Nil: "split_fields c f s \<noteq> []"
  by (induction s arbitrary: f) auto

lemma hd_split_fields: "hd (split_fields c f s) = f @ takeWhile (\<lambda>x. x \<noteq> c) s"
  by (induction s arbitrary: f) auto

lemma last_split_fields: "suffix (last (split_fields c f s)) (f @ s)"
proof (induction s arbitrary: f)
  case Nil
  then show ?case by simp
next
  case (Cons x xs)
  show ?case
  proof (cases "x = c")
    case True
    have "suffix (last (split_fields c [] xs)) xs" using Cons[of "[]"] by simp
    then have "suffix (last (split_fields c [] xs)) (f @ x # xs)"
      by (metis suffix_Cons suffix_appendI)
    with True show ?thesis by (simp add: split_fields_not_Nil)
  next
    case False
    with Cons[of "f @ [x]"] show ?thesis by simp
  qed
qed

lemma split_words_not_Nil:
  "split_words w s \<noteq> [] \<longleftrightarrow> w \<noteq> [] \<or> (\<exists>c\<in>set s. \<not> is_space c)"
  by (induction s arbitrary: w) auto

lemma rmatch_Cat_set:
  "set (rmatch n (Cat r1 r2) st) = (\<Union>st1\<in>set (rmatch n r1 st). set (rmatch n r2 st1))"
  by (cases st) simp


lemma rmatch_Star_set:
  "set (rmatch n (Star r) st) =
     insert st (\<Union>st1\<in>{x \<in> set (rmatch n r st). length (snd x) < length (snd st)}.
                  set (rmatch n (Star r) st1))"
  by (cases st) auto

lemma rmatch_LazyStar_set:
  "set (rmatch n (LazyStar r) st) =
     insert st (\<Union>st1\<in>{x \<in> set (rmatch n r st). length (snd x) < length (snd st)}.
                  set (rmatch n (LazyStar r) st1))"
  by (cases st) auto

lemma rmatch_suffix: "st' \<in> set (rmatch n r st) \<Longrightarrow> suffix (snd st') (snd st)"
proof (induction n r st arbitrary: st' rule: rmatch.induct)
  case (1 n g s)
  then show ?case by simp
next
  case (2 n a g s)
  then show ?case by (cases s) (auto split: if_splits simp: suffix_Cons)
next
  case (3 n g s)
  then show ?case by (simp split: if_splits)
next
  case (4 n r1 r2 g s)
  from 4(3) obtain st1 where a: "st1 \<in> set (rmatch n r1 (g, s))" and b: "st' \<in> set (rmatch n r2 st1)"
    unfolding rmatch_Cat_set by blast
  from 4(1)[OF a] 4(2)[OF a b] show ?case
    using suffix_order.order_trans by fastforce
next
  case (5 n r g s)
  from 5(2) have "st' \<in> set (rmatch n r (g, s)) \<or> st' = (g, s)" by auto
  with 5(1)[of st'] show ?case by auto
next
  case (6 n r g s)
  from 6(3) consider "st' = (g, s)"
    | st1 where "st1 \<in> set (rmatch n r (g, s))" "length (snd st1) < length s"
        "st' \<in> set (rmatch n (Star r) st1)"
    unfolding rmatch_Star_set[of n r "(g, s)"] by fastforce
  then show ?case
  proof cases
    case 1 then show ?thesis by simp
  next
    case 2
    from 6(1)[OF 2(1)] 6(2)[OF 2(1) 2(2) 2(3)] show ?thesis
      using suffix_order.order_trans by fastforce
  qed
next
  case (7 n r g s)
  from 7(3) consider "st' = (g, s)"
    | st1 where "st1 \<in> set (rmatch n r (g, s))" "length (snd st1) < length s"
        "st' \<in> set (rmatch n (LazyStar r) st1)"
    unfolding rmatch_LazyStar_set[of n r "(g, s)"] by fastforce
  then show ?case
  proof cases
    case 1 then show ?thesis by simp
  next
    case 2
    from 7(1)[OF 2(1)] 7(2)[OF 2(1) 2(2) 2(3)] show ?thesis
      using suffix_order.order_trans by fastforce
  qed
next
  case (8 n r g s)
  from 8(2) obtain st1 where "st1 \<in> set (rmatch n r (g, s))" "snd st' = snd st1" by auto
  with 8(1) show ?case by auto
qed

lemma sublist_of_suffix: "sublist x t \<Longrightarrow> suffix t s \<Longrightarrow> sublist x s"
  by (meson sublist_order.order_trans suffix_imp_sublist)

lemma rmatch_group:
  "st' \<in> set (rmatch n r st) \<Longrightarrow>
     fst st' = fst st \<or> (\<exists>x. fst st' = Some x \<and> sublist x (snd st))"
proof (induction n r st arbitrary: st' rule: rmatch.induct)
  case (1 n g s)
  then show ?case by simp
next
  case (2 n a g s)
  then show ?case by (cases s) (auto split: if_splits)
next
  case (3 n g s)
  then show ?case by (simp split: if_splits)
next
  case (4 n r1 r2 g s)
  from 4(3) obtain st1 where a: "st1 \<in> set (rmatch n r1 (g, s))" and b: "st' \<in> set (rmatch n r2 st1)"
    unfolding rmatch_Cat_set by blast
  from 4(1)[OF a] have c: "fst st1 = g \<or> (\<exists>x. fst st1 = Some x \<and> sublist x s)" by simp
  from 4(2)[OF a b] have d: "fst st' = fst st1 \<or> (\<exists>x. fst st' = Some x \<and> sublist x (snd st1))" .
  from rmatch_suffix[OF a] have "suffix (snd st1) s" by simp
  with c d show ?case using sublist_of_suffix by auto
next
  case (5 n r g s)
  from 5(2) have "st' \<in> set (rmatch n r (g, s)) \<or> st' = (g, s)" by auto
  with 5(1)[of st'] show ?case by auto
next
  case (6 n r g s)
  from 6(3) consider "st' = (g, s)"
    | st1 where "st1 \<in> set (rmatch n r (g, s))" "length (snd st1) < length s"
        "st' \<in> set (rmatch n (Star r) st1)"
    unfolding rmatch_Star_set[of n r "(g, s)"] by fastforce
  then show ?case
  proof cases
    case 1 then show ?thesis by simp
  next
    case 2
    from 6(1)[OF 2(1)] have c: "fst st1 = g \<or> (\<exists>x. fst st1 = Some x \<and> sublist x s)" by simp
    from 6(2)[OF 2(1) 2(2) 2(3)]
    have d: "fst st' = fst st1 \<or> (\<exists>x. fst st' = Some x \<and> sublist x (snd st1))" .
    from rmatch_suffix[OF 2(1)] have "suffix (snd st1) s" by simp
    with c d show ?thesis using sublist_of_suffix by auto
  qed
next
  case (7 n r g s)
  from 7(3) consider "st' = (g, s)"
    | st1 where "st1 \<in> set (rmatch n r (g, s))" "length (snd st1) < length s"
        "st' \<in> set (rmatch n (LazyStar r) st1)"
    unfolding rmatch_LazyStar_set[of n r "(g, s)"] by fastforce
  then show ?case
  proof cases
    case 1 then show ?thesis by simp
  next
    case 2
    from 7(1)[OF 2(1)] have c: "fst st1 = g \<or> (\<exists>x. fst st1 = Some x \<and> sublist x s)" by simp
    from 7(2)[OF 2(1) 2(2) 2(3)]
    have d: "fst st' = fst st1 \<or> (\<exists>x. fst st' = Some x \<and> sublist x (snd st1))" .
    from rmatch_suffix[OF 2(1)] have "suffix (snd st1) s" by simp
    with c d show ?thesis using sublist_of_suffix by auto
  qed
next
  case (8 n r g s)
  from 8(2) obtain st1 where "st1 \<in> set (rmatch n r (g, s))"
    "st' = (Some (take (length s - length (snd st1)) s), snd st1)" by auto
  then show ?case by auto
qed

lemma rmatch_Atom_set:
  "st' \<in> set (rmatch n (Atom a) st) \<longleftrightarrow>
     (\<exists>c. accepts a c \<and> snd st = c # snd st' \<and> fst st' = fst st)"
  by (cases st; cases st'; cases "snd st") (auto split: if_splits)

lemma rmatch_Star_Atom:
  "st' \<in> set (rmatch n (Star (Atom a)) st) \<Longrightarrow>
     fst st' = fst st \<and> (\<exists>ws. snd st = ws @ snd st' \<and> (\<forall>x\<in>set ws. accepts a x))"
proof (induction "snd st" arbitrary: st)
  case Nil
  have "rmatch n (Atom a) st = []" using Nil(1) by (cases st) auto
  with Nil(2) have "st' = st"
    unfolding rmatch_Star_set[of n "Atom a" st] by simp
  then show ?case by simp
next
  case (Cons c cs)
  from Cons(3) consider "st' = st"
    | st1 where "st1 \<in> set (rmatch n (Atom a) st)" "st' \<in> set (rmatch n (Star (Atom a)) st1)"
    unfolding rmatch_Star_set[of n "Atom a" st] by blast
  then show ?case
  proof cases
    case 1 then show ?thesis by simp
  next
    case 2
    from 2(1) Cons(2) have acc: "accepts a c" and s1: "snd st1 = cs" and g1: "fst st1 = fst st"
      unfolding rmatch_Atom_set by auto
    from Cons(1)[of st1] s1 2(2)
    obtain ws where "fst st' = fst st1" "cs = ws @ snd st'" "\<forall>x\<in>set ws. accepts a x" by auto
    with acc g1 Cons(2) show ?thesis by (intro conjI exI[of _ "c # ws"]) auto
  qed
qed

section \<open>The duplication pass\<close>

lemma dict_pairs_Cons: "dict_pairs ((k, vs) # d) = map (Pair k) vs @ dict_pairs d"
  by (simp add: dict_pairs_def)

lemma dict_pairs_Nil: "dict_pairs [] = []"
  by (simp add: dict_pairs_def)

lemma mset_dict_pairs_append:
  "mset (dict_pairs (dict_append k v d)) = mset (dict_pairs d) + {#(k, v)#}"
  by (induction d) (auto simp: dict_append_def dict_pairs_Cons dict_pairs_Nil)

lemma keys_dict_upd:
  "map fst (dict_upd k f d) = (if k \<in> fst ` set d then map fst d else map fst d @ [k])"
  by (induction d) force+

lemma distinct_dict_upd: "distinct (map fst d) \<Longrightarrow> distinct (map fst (dict_upd k f d))"
  by (simp add: keys_dict_upd)

lemma eligible_pairs_Nil: "eligible_pairs i [] = []"
  by (simp add: eligible_pairs_def)

lemma eligible_pairs_Cons:
  "eligible_pairs i (line # rest) =
     (if dup_eligible (strip line) then [(strip line, i + 1)] else []) @ eligible_pairs (Suc i) rest"
  by (simp add: eligible_pairs_def)

lemma collect_blocks_pairs:
  "mset (dict_pairs (collect_blocks i content d)) = mset (dict_pairs d) + mset (eligible_pairs i content)"
proof (induction content arbitrary: i d)
  case Nil
  then show ?case by (simp add: eligible_pairs_Nil)
next
  case (Cons line rest)
  show ?case
    by (simp add: Cons eligible_pairs_Cons mset_dict_pairs_append dup_eligible_def Let_def)
qed

lemma collect_blocks_distinct:
  "distinct (map fst d) \<Longrightarrow> distinct (map fst (collect_blocks i content d))"
proof (induction content arbitrary: i d)
  case Nil
  then show ?case by simp
next
  case (Cons line rest)
  then show ?case by (simp add: Let_def dict_append_def distinct_dict_upd)
qed

lemma filter_key_pairs:
  "distinct (map fst d) \<Longrightarrow> (k, vs) \<in> set d \<Longrightarrow>
     length (filter (\<lambda>p. fst p = k) (dict_pairs d)) = length vs"
proof (induction d)
  case Nil
  then show ?case by simp
next
  case (Cons a d)
  obtain k' vs' where a: "a = (k', vs')" by (cases a)
  have none: "k \<notin> fst ` set d \<Longrightarrow> filter (\<lambda>p. fst p = k) (dict_pairs d) = []" for d :: "('a \<times> 'b list) list"
    by (induction d) (auto simp: dict_pairs_Cons dict_pairs_Nil filter_empty_conv)
  show ?case
  proof (cases "k' = k")
    case True
    with Cons(2,3) a have vs: "vs' = vs" and "k \<notin> fst ` set d" by (auto simp: rev_image_eqI)
    with none[of d] True a show ?thesis by (simp add: dict_pairs_Cons filter_map comp_def)
  next
    case False
    with Cons a show ?thesis by (auto simp: dict_pairs_Cons filter_map comp_def)
  qed
qed

lemma block_issues_pairs:
  "\<forall>(k, vs)\<in>set d. N k = length vs \<Longrightarrow>
     concat (map block_issues d) =
       map (\<lambda>(k, v). dup_finding v k (N k))
           (filter (\<lambda>(k, v). 1 < N k \<and> 20 < length k) (dict_pairs d))"
proof (induction d)
  case Nil
  then show ?case by (simp add: dict_pairs_Nil)
next
  case (Cons a d)
  obtain k vs where a: "a = (k, vs)" by (cases a)
  with Cons(2) have N: "N k = length vs" by simp
  have "block_issues (k, vs) =
      map (\<lambda>(k, v). dup_finding v k (N k))
          (filter (\<lambda>(k, v). 1 < N k \<and> 20 < length k) (map (Pair k) vs))"
    by (simp add: block_issues_def dup_finding_def N filter_map comp_def)
  with Cons a show ?case by (simp add: dict_pairs_Cons)
qed

lemma eligible_pairs_count:
  "length (filter (\<lambda>p. fst p = t) (eligible_pairs i content)) =
     (if dup_eligible t then dup_group_size content t else 0)"
  by (induction content arbitrary: i) (auto simp: eligible_pairs_Nil eligible_pairs_Cons dup_group_size_def)

lemma spec_duplicates_pairs:
  "concat (map (\<lambda>(j, line).
                  if dup_eligible (strip line) \<and> 1 < G (strip line) \<and> 20 < length (strip line)
                  then [dup_finding (j + 1) (strip line) (G (strip line))] else [])
               (enumerate i content)) =
   map (\<lambda>(k, v). dup_finding v k (if dup_eligible k then G k else 0))
       (filter (\<lambda>(k, v). 1 < (if dup_eligible k then G k else 0) \<and> 20 < length k)
               (eligible_pairs i content))"
  by (induction content arbitrary: i) (simp_all add: eligible_pairs_Nil eligible_pairs_Cons)

lemma detect_duplicate_code_mset:
  "mset (detect_duplicate_code content path) = mset (spec_duplicates content)"
proof -
  define D where "D = collect_blocks 0 content []"
  define E where "E = eligible_pairs 0 content"
  define N where "N = (\<lambda>k. if dup_eligible k then dup_group_size content k else 0)"
  define MK where "MK = (\<lambda>(k :: string, v :: nat). dup_finding v k (N k))"
  define Q where "Q = (\<lambda>(k :: string, v :: nat). 1 < N k \<and> 20 < length k)"
  have DE: "mset (dict_pairs D) = mset E"
    using collect_blocks_pairs[of 0 content "[]"] by (simp add: D_def E_def dict_pairs_Nil)
  have dist: "distinct (map fst D)"
    unfolding D_def by (rule collect_blocks_distinct) simp
  have cnt: "length (filter (\<lambda>p. fst p = k) (dict_pairs D)) = N k" for k
  proof -
    have "length (filter (\<lambda>p. fst p = k) (dict_pairs D))
        = size (filter_mset (\<lambda>p. fst p = k) (mset (dict_pairs D)))"
      by (metis mset_filter size_mset)
    also have "\<dots> = length (filter (\<lambda>p. fst p = k) E)"
      unfolding DE by (metis mset_filter size_mset)
    finally show ?thesis by (simp add: E_def N_def eligible_pairs_count)
  qed
  have "\<forall>(k, vs)\<in>set D. N k = length vs"
    using filter_key_pairs[OF dist] cnt by fastforce
  then have code: "detect_duplicate_code content path = map MK (filter Q (dict_pairs D))"
    unfolding detect_duplicate_code_def D_def[symmetric] MK_def Q_def
    by (rule block_issues_pairs)
  have spec: "spec_duplicates content = map MK (filter Q E)"
    unfolding spec_duplicates_def E_def MK_def Q_def N_def
    by (rule spec_duplicates_pairs)
  have "mset (map MK (filter Q (dict_pairs D))) = image_mset MK (filter_mset Q (mset (dict_pairs D)))"
    by simp
  also have "\<dots> = mset (map MK (filter Q E))"
    unfolding DE by simp
  finally show ?thesis by (simp add: code spec)
qed

text \<open>
  Claim C3. The findings of the duplication pass are, up to their order, those of the
  specification: one for each line whose trimmed text is not blank, does not begin with
  \<^verbatim>\<open>//\<close>, \<^verbatim>\<open>/*\<close> or \<^verbatim>\<open>*\<close>, is longer than 20 characters and is the trimmed
  text of more than one line, with the number of these lines in the description; and
  no finding for any other line.
\<close>

theorem duplication_findings:
  "mset (detect_duplicate_code content path) = mset (spec_duplicates content)"
  by (rule detect_duplicate_code_mset)

section \<open>The potential-bug pass\<close>

lemma bug_step_line_number: "f \<in> set (bug_step i line) \<Longrightarrow> line_number f = Suc i"
  by (auto simp: bug_step_def Let_def null_check_issue_def empty_catch_issue_def split: if_splits)

lemma filter_bug_step:
  "filter (\<lambda>f. line_number f = Suc k) (bug_step i line) = (if i = k then bug_step i line else [])"
  by (auto simp: filter_empty_conv filter_id_conv dest: bug_step_line_number)

lemma filter_bug_loop:
  "filter (\<lambda>f. line_number f = Suc k) (bug_loop i content) =
     (if i \<le> k \<and> k < i + length content then bug_step k (content ! (k - i)) else [])"
proof (induction content arbitrary: i)
  case Nil
  then show ?case by auto
next
  case (Cons line rest)
  show ?case
  proof (cases "i = k")
    case True
    then show ?thesis by (simp add: filter_bug_step Cons)
  next
    case False
    then show ?thesis by (auto simp: filter_bug_step Cons Suc_diff_le nth_Cons')
  qed
qed

text \<open>
  Claim C5. The findings of the potential-bug pass at the line of index \<open>i\<close> are the
  results of two checks on the trimmed text, each made whatever the other gives: a
  null-check finding exactly when the text matches \<^verbatim>\<open>!\s*=\s*null\<close> somewhere and
  holds no \<^verbatim>\<open>?\<close>, then an empty-catch finding exactly when it matches
  \<^verbatim>\<open>catch\s*\([^)]*\)\s*\{\s*\}\<close> somewhere. So \<^verbatim>\<open>if (value != null) {\<close> gives one
  finding, \<^verbatim>\<open>if (value?.x != null)\<close> none and \<^verbatim>\<open>catch (e) {  }\<close> one.
\<close>

theorem potential_bug_checks:
  assumes "i < length content"
  shows "filter (\<lambda>f. line_number f = i + 1) (detect_potential_bugs content) =
           (if re_search null_check_pattern (strip (content ! i))
               \<and> CHR ''?'' \<notin> set (strip (content ! i))
            then [null_check_issue (i + 1) (strip (content ! i))] else [])
         @ (if re_search empty_catch_pattern (strip (content ! i))
            then [empty_catch_issue (i + 1) (strip (content ! i))] else [])
       \<and> detect_potential_bugs [''if (value != null) {''] =
           [null_check_issue 1 ''if (value != null) {'']
       \<and> detect_potential_bugs [''if (value?.x != null)''] = []
       \<and> detect_potential_bugs [''catch (e) {  }''] = [empty_catch_issue 1 ''catch (e) {  }'']"
proof -
  have general: "filter (\<lambda>f. line_number f = i + 1) (detect_potential_bugs content) =
      bug_step i (content ! i)"
    using assms filter_bug_loop[of i 0 content] by (simp add: detect_potential_bugs_def)
  have e1: "detect_potential_bugs [''if (value != null) {''] =
           [null_check_issue 1 ''if (value != null) {'']"
    by code_simp
  have e2: "detect_potential_bugs [''if (value?.x != null)''] = []"
    by code_simp
  have e3: "detect_potential_bugs [''catch (e) {  }''] = [empty_catch_issue 1 ''catch (e) {  }'']"
    by code_simp
  show ?thesis
    unfolding general e1 e2 e3 by (simp add: bug_step_def Let_def)
qed

theorem potential_bug_checks_witness:
  "0 < length [''  if (a != null) { } catch (e) { }''] \<and>
   filter (\<lambda>f. line_number f = 0 + 1)
     (detect_potential_bugs [''  if (a != null) { } catch (e) { }'']) =
     [null_check_issue 1 ''if (a != null) { } catch (e) { }'',
      empty_catch_issue 1 ''if (a != null) { } catch (e) { }'']"
proof -
  have h: "0 < length [''  if (a != null) { } catch (e) { }'']" by simp
  have s: "strip ''  if (a != null) { } catch (e) { }'' = ''if (a != null) { } catch (e) { }''"
    by code_simp
  have n: "re_search null_check_pattern ''if (a != null) { } catch (e) { }''" by code_simp
  have c: "re_search empty_catch_pattern ''if (a != null) { } catch (e) { }''" by code_simp
  from potential_bug_checks[OF h] show ?thesis
    by (simp add: s n c)
qed

section \<open>The comment density\<close>

lemma map_of_dict_upd: "map_of (dict_upd k f d) = (map_of d)(k \<mapsto> f (map_of d k))"
  by (induction d) (auto simp: fun_eq_iff)

lemma count_key_not_density: "count_key t \<noteq> ''comment_density''"
proof
  assume "count_key t = ''comment_density''"
  then have "last (count_key t) = last ''comment_density''" by simp
  then show False by (simp add: count_key_def)
qed

lemma map_of_fold_counts:
  "k \<notin> range count_key \<Longrightarrow>
     map_of (fold (\<lambda>(t, n) m. dict_set (count_key t) (IntNum (int n)) m) counts m) k = map_of m k"
  by (induction counts arbitrary: m) (auto simp: dict_set_def map_of_dict_upd)

lemma calculate_metrics_result:
  "calculate_metrics content found =
     Inr (fold (\<lambda>(t, n) m. dict_set (count_key t) (IntNum (int n)) m) (count_issues found)
            [(''total_lines'', IntNum (int (length content))),
             (''code_lines'', IntNum (int (length (filter is_code_line content)))),
             (''comment_lines'', IntNum (int (length (filter is_comment_line content)))),
             (''comment_density'',
                if length (filter is_code_line content) = 0 then IntNum 0
                else FloatNum (FloatMul
                       (FloatDiv (int (length (filter is_comment_line content)))
                                 (int (length (filter is_code_line content)))) 100))])"
  by (simp add: calculate_metrics_def truediv_def Let_def)

text \<open>
  Claim C6. The metrics never fail on a division: the function returns on every file,
  with the integer \<open>0\<close> as the comment density of a file with no code line, and with
  the float \<open>comment_lines / code_lines * 100\<close> for any other file, where the divisor
  is not zero.
\<close>

theorem comment_density_guarded:
  "\<exists>m. calculate_metrics content found = Inr m
       \<and> map_of m ''comment_density'' =
           Some (if length (filter is_code_line content) = 0 then IntNum 0
                 else FloatNum (FloatMul
                        (FloatDiv (int (length (filter is_comment_line content)))
                                  (int (length (filter is_code_line content)))) 100))
       \<and> (0 < length (filter is_code_line content) \<or>
            truediv (int (length (filter is_comment_line content)))
                    (int (length (filter is_code_line content))) = Inl ZeroDivisionError)"
proof -
  have "''comment_density'' \<notin> range count_key"
    using count_key_not_density by (metis rangeE)
  then show ?thesis
    unfolding calculate_metrics_result by (auto simp: map_of_fold_counts truediv_def)
qed

section \<open>The dead-code pass\<close>

lemma re_match_Some_iff: "re_match p s \<noteq> None \<longleftrightarrow> rmatch (length s) p (None, s) \<noteq> []"
  by (simp add: re_match_def split: list.splits)

lemma rmatch_Bos_set: "st' \<in> set (rmatch n Bos st) \<Longrightarrow> st' = st"
  by (cases st) (auto split: if_splits)

lemma rmatch_Plus_Atom_first:
  "st' \<in> set (rmatch n (Cat (Plus (Atom a)) r) st) \<Longrightarrow> \<exists>c cs. snd st = c # cs \<and> accepts a c"
  unfolding Plus_def rmatch_Cat_set by (auto simp: rmatch_Atom_set)

lemma private_method_first_char:
  assumes "re_match private_method_pattern s \<noteq> None"
  shows "\<exists>ws c rest. s = ws @ c # rest \<and> (\<forall>x\<in>set ws. is_space x)
           \<and> accepts (CSet (Ch CHR ''_'' # letters)) c"
proof -
  from assms obtain st' where "st' \<in> set (rmatch (length s) private_method_pattern (None, s))"
    unfolding re_match_Some_iff by (meson last_in_set)
  then obtain st1 st2 where
    a: "st1 \<in> set (rmatch (length s) Bos (None, s))" and
    b: "st2 \<in> set (rmatch (length s) (Star (Atom WS)) st1)" and
    c: "\<exists>r. st' \<in> set (rmatch (length s) (Cat (Plus (Atom (CSet (Ch CHR ''_'' # letters)))) r) st2)"
    unfolding private_method_pattern_def seq.simps rmatch_Cat_set[of _ Bos]
      rmatch_Cat_set[of _ "Star (Atom WS)"] by blast
  from a have st1: "st1 = (None, s)" by (rule rmatch_Bos_set)
  from rmatch_Star_Atom[OF b] st1 obtain ws where
    ws: "s = ws @ snd st2" "\<forall>x\<in>set ws. is_space x" by auto
  from c rmatch_Plus_Atom_first obtain ch cs where
    "snd st2 = ch # cs" "accepts (CSet (Ch CHR ''_'' # letters)) ch" by blast
  with ws show ?thesis by blast
qed

lemma name_char: "accepts (CSet (Ch CHR ''_'' # letters)) c \<Longrightarrow> c \<noteq> CHR ''('' \<and> \<not> is_space c"
  by (auto simp: letters_def is_space_def Let_def)

lemma space_not_paren: "is_space c \<Longrightarrow> c \<noteq> CHR ''(''"
  by (auto simp: is_space_def Let_def)

lemma getitem_last: "xs \<noteq> [] \<Longrightarrow> getitem xs (- 1) = Inr (last xs)"
  by (cases xs rule: rev_cases) (auto simp: getitem_def Let_def nth_append)

lemma method_name_exists:
  assumes "re_match private_method_pattern s \<noteq> None"
  shows "\<exists>name. method_name_of s = Inr name"
proof -
  from private_method_first_char[OF assms] obtain ws c rest where
    s: "s = ws @ c # rest" and ws: "\<forall>x\<in>set ws. is_space x"
    and c: "accepts (CSet (Ch CHR ''_'' # letters)) c" by blast
  from ws have "\<forall>x\<in>set ws. x \<noteq> CHR ''(''" using space_not_paren by blast
  then have "takeWhile (\<lambda>x. x \<noteq> CHR ''('') s = ws @ c # takeWhile (\<lambda>x. x \<noteq> CHR ''('') rest"
    using name_char[OF c] by (simp add: s)
  then have "c \<in> set (hd (split_on CHR ''('' s))"
    by (simp add: split_on_def hd_split_fields)
  with name_char[OF c] have "split_ws (hd (split_on CHR ''('' s)) \<noteq> []"
    unfolding split_ws_def split_words_not_Nil by blast
  then show ?thesis by (simp add: method_name_of_def getitem_last)
qed

lemma dead_loop_findings:
  "\<exists>found. dead_loop content i lines = Inr found
     \<and> (\<forall>f\<in>set found. i < line_number f \<and> line_number f \<le> i + length lines
                          \<and> issue_type f = ''Dead Code'')
     \<and> (\<forall>k name. k < length lines \<longrightarrow> re_match private_method_pattern (strip (lines ! k)) \<noteq> None
           \<longrightarrow> method_name_of (strip (lines ! k)) = Inr name
           \<longrightarrow> filter (\<lambda>f. line_number f = Suc (i + k)) found =
                 (if is_called name (lines ! k) content then []
                  else [dead_code_issue (Suc (i + k)) name (strip (lines ! k))]))"
proof (induction lines arbitrary: i)
  case Nil
  then show ?case by simp
next
  case (Cons line rest)
  from Cons[of "Suc i"] obtain found' where
    rec: "dead_loop content (Suc i) rest = Inr found'" and
    rng: "\<forall>f\<in>set found'. Suc i < line_number f \<and> line_number f \<le> Suc i + length rest
                          \<and> issue_type f = ''Dead Code''" and
    flt: "\<And>k name. k < length rest \<Longrightarrow> re_match private_method_pattern (strip (rest ! k)) \<noteq> None
           \<Longrightarrow> method_name_of (strip (rest ! k)) = Inr name
           \<Longrightarrow> filter (\<lambda>f. line_number f = Suc (Suc i + k)) found' =
                 (if is_called name (rest ! k) content then []
                  else [dead_code_issue (Suc (Suc i + k)) name (strip (rest ! k))])"
    by blast
  have none: "filter (\<lambda>f. line_number f = Suc i) found' = []"
    using rng by (auto simp: filter_empty_conv)
  show ?case
  proof (cases "re_match private_method_pattern (strip line) \<noteq> None")
    case False
    have "dead_loop content i (line # rest) = Inr found'"
      using False rec by simp
    moreover have "\<forall>f\<in>set found'. i < line_number f \<and> line_number f \<le> i + length (line # rest)
                          \<and> issue_type f = ''Dead Code''"
      using rng by auto
    moreover have "filter (\<lambda>f. line_number f = Suc (i + k)) found' =
                 (if is_called name ((line # rest) ! k) content then []
                  else [dead_code_issue (Suc (i + k)) name (strip ((line # rest) ! k))])"
      if "k < length (line # rest)"
        "re_match private_method_pattern (strip ((line # rest) ! k)) \<noteq> None"
        "method_name_of (strip ((line # rest) ! k)) = Inr name" for k name
    proof (cases k)
      case 0
      with that False show ?thesis by simp
    next
      case (Suc k')
      with that flt[of k' name] show ?thesis by simp
    qed
    ultimately show ?thesis by blast
  next
    case True
    from method_name_exists[OF True] obtain nm where nm: "method_name_of (strip line) = Inr nm"
      by blast
    define this where "this = (if is_called nm line content then []
                              else [dead_code_issue (i + 1) nm (strip line)])"
    have res: "dead_loop content i (line # rest) = Inr (this @ found')"
      using True rec nm by (simp add: this_def Let_def)
    have this_ln: "\<forall>f\<in>set this. line_number f = Suc i \<and> issue_type f = ''Dead Code''"
      by (simp add: this_def dead_code_issue_def)
    have "\<forall>f\<in>set (this @ found'). i < line_number f \<and> line_number f \<le> i + length (line # rest)
                          \<and> issue_type f = ''Dead Code''"
      using rng this_ln by auto
    moreover have "filter (\<lambda>f. line_number f = Suc (i + k)) (this @ found') =
                 (if is_called name ((line # rest) ! k) content then []
                  else [dead_code_issue (Suc (i + k)) name (strip ((line # rest) ! k))])"
      if "k < length (line # rest)"
        "re_match private_method_pattern (strip ((line # rest) ! k)) \<noteq> None"
        "method_name_of (strip ((line # rest) ! k)) = Inr name" for k name
    proof (cases k)
      case 0
      with that nm have "name = nm" by simp
      moreover have "filter (\<lambda>f. line_number f = Suc i) this = this"
        using this_ln by (simp add: filter_id_conv)
      ultimately show ?thesis using 0 none by (simp add: this_def)
    next
      case (Suc k')
      have "filter (\<lambda>f. line_number f = Suc (Suc i + k')) this = []"
        using this_ln by (auto simp: filter_empty_conv)
      with Suc that flt[of k' name] show ?thesis by simp
    qed
    ultimately show ?thesis using res by blast
  qed
qed

text \<open>
  Claim C4. For a line of index \<open>i\<close> whose trimmed text matches the pattern of a private
  member, the text before the first parenthesis has a last word, the name; the pass
  returns, and it has a finding at line \<open>i + 1\<close>, a single one, exactly when no line
  of the file that differs from this line contains the name followed by \<^verbatim>\<open>(\<close>.
  The file of the one line \<^verbatim>\<open>void _helper() {\<close> has one finding, and none when a
  second line calls \<^verbatim>\<open>_helper(1)\<close>.
\<close>

theorem dead_code_private_member:
  assumes "i < length content"
    and "re_match private_method_pattern (strip (content ! i)) \<noteq> None"
  shows "\<exists>name found.
           method_name_of (strip (content ! i)) = Inr name
         \<and> detect_dead_code content = Inr found
         \<and> filter (\<lambda>f. line_number f = i + 1) found =
             (if \<exists>other\<in>set content. other \<noteq> content ! i \<and> sublist (name @ ''('') other
              then [] else [dead_code_issue (i + 1) name (strip (content ! i))])
         \<and> detect_dead_code [''void _helper() {''] =
             Inr [dead_code_issue 1 ''_helper'' ''void _helper() {'']
         \<and> detect_dead_code [''void _helper() {'', ''  _helper(1);''] = Inr []"
proof -
  from method_name_exists[OF assms(2)] obtain name where
    nm: "method_name_of (strip (content ! i)) = Inr name" by blast
  from dead_loop_findings[of content 0 content] obtain found where
    res: "detect_dead_code content = Inr found" and
    flt: "\<And>k name. k < length content
           \<Longrightarrow> re_match private_method_pattern (strip (content ! k)) \<noteq> None
           \<Longrightarrow> method_name_of (strip (content ! k)) = Inr name
           \<Longrightarrow> filter (\<lambda>f. line_number f = Suc (0 + k)) found =
                 (if is_called name (content ! k) content then []
                  else [dead_code_issue (Suc (0 + k)) name (strip (content ! k))])"
    unfolding detect_dead_code_def by blast
  have called: "is_called name (content ! i) content \<longleftrightarrow>
      (\<exists>other\<in>set content. other \<noteq> content ! i \<and> sublist (name @ ''('') other)"
    by (auto simp: is_called_def list_ex_iff)
  have e1: "detect_dead_code [''void _helper() {''] =
             Inr [dead_code_issue 1 ''_helper'' ''void _helper() {'']"
    by code_simp
  have e2: "detect_dead_code [''void _helper() {'', ''  _helper(1);''] = Inr []"
    by code_simp
  from flt[OF assms(1) assms(2) nm] have
    "filter (\<lambda>f. line_number f = i + 1) found =
       (if \<exists>other\<in>set content. other \<noteq> content ! i \<and> sublist (name @ ''('') other
        then [] else [dead_code_issue (i + 1) name (strip (content ! i))])"
    unfolding called by simp
  with nm res e1 e2 show ?thesis by blast
qed

theorem dead_code_private_member_witness:
  "(0::nat) < length [''int _count(int x) {'', ''}'']
   \<and> re_match private_method_pattern (strip ([''int _count(int x) {'', ''}''] ! 0)) \<noteq> None
   \<and> (\<exists>found. detect_dead_code [''int _count(int x) {'', ''}''] = Inr found
          \<and> filter (\<lambda>f. line_number f = 0 + 1) found =
              [dead_code_issue 1 ''_count'' ''int _count(int x) {''])"
proof -
  let ?content = "[''int _count(int x) {'', ''}'']"
  have h1: "(0::nat) < length ?content" by simp
  have h2: "re_match private_method_pattern (strip (?content ! 0)) \<noteq> None"
    by code_simp
  have n: "method_name_of (strip (?content ! 0)) = Inr ''_count''"
    by code_simp
  have s: "strip (?content ! 0) = ''int _count(int x) {''"
    by code_simp
  have c: "\<not> (\<exists>other\<in>set ?content. other \<noteq> ?content ! 0 \<and> sublist (''_count'' @ ''('') other)"
    by code_simp
  from dead_code_private_member[OF h1 h2] obtain name found where
    "method_name_of (strip (?content ! 0)) = Inr name"
    "detect_dead_code ?content = Inr found"
    "filter (\<lambda>f. line_number f = 0 + 1) found =
       (if \<exists>other\<in>set ?content. other \<noteq> ?content ! 0 \<and> sublist (name @ ''('') other
        then [] else [dead_code_issue (0 + 1) name (strip (?content ! 0))])"
    by blast
  with n c s have "detect_dead_code ?content = Inr found
      \<and> filter (\<lambda>f. line_number f = 0 + 1) found =
              [dead_code_issue 1 ''_count'' ''int _count(int x) {'']"
    by simp
  with h1 h2 show ?thesis by blast
qed

section \<open>The unused-import pass\<close>

lemma rmatch_Group_set: "st' \<in> set (rmatch n (Group r) st) \<Longrightarrow> \<exists>x. fst st' = Some x"
  by (cases st) auto

lemma import_pattern_group:
  assumes "st' \<in> set (rmatch n import_pattern (None, s))"
  shows "\<exists>x. fst st' = Some x \<and> sublist x s"
proof -
  define q where "q = Atom (CSet quote_chars)"
  from assms obtain st5 st6 where
    g: "st6 \<in> set (rmatch n (Group (LazyPlus (Atom AnyChar))) st5)" and
    e: "st' \<in> set (rmatch n q st6)"
    unfolding import_pattern_def seq.simps rmatch_Cat_set q_def by blast
  from rmatch_Group_set[OF g] obtain x where "fst st6 = Some x" by blast
  moreover from e have "fst st' = fst st6" unfolding q_def rmatch_Atom_set by blast
  ultimately have "fst st' = Some x" by simp
  with rmatch_group[OF assms] show ?thesis by auto
qed

lemma re_match_import:
  assumes "re_match import_pattern s = Some g"
  shows "\<exists>x. g = Some x \<and> sublist x s"
proof -
  from assms obtain st' where "st' \<in> set (rmatch (length s) import_pattern (None, s))" "g = fst st'"
    by (auto simp: re_match_def split: list.splits)
  with import_pattern_group show ?thesis by blast
qed

lemma import_name_dot:
  assumes "CHR ''.'' \<in> set (last (split_on CHR ''/'' import_stmt))"
  shows "sublist (import_name_of import_stmt @ ''.'') import_stmt"
proof -
  define seg where "seg = last (split_on CHR ''/'' import_stmt)"
  have name: "import_name_of import_stmt = takeWhile (\<lambda>x. x \<noteq> CHR ''.'') seg"
    by (simp add: import_name_of_def seg_def split_on_def hd_split_fields)
  from assms have ne: "dropWhile (\<lambda>x. x \<noteq> CHR ''.'') seg \<noteq> []"
    unfolding seg_def by simp
  then have "hd (dropWhile (\<lambda>x. x \<noteq> CHR ''.'') seg) = CHR ''.''"
    using hd_dropWhile[of "\<lambda>x. x \<noteq> CHR ''.''" seg] by simp
  with ne obtain rest where d: "dropWhile (\<lambda>x. x \<noteq> CHR ''.'') seg = CHR ''.'' # rest"
    by (cases "dropWhile (\<lambda>x. x \<noteq> CHR ''.'') seg") auto
  have "takeWhile (\<lambda>x. x \<noteq> CHR ''.'') seg @ CHR ''.'' # rest = seg"
    using takeWhile_dropWhile_id[of "\<lambda>x. x \<noteq> CHR ''.''" seg] unfolding d .
  then have "(import_name_of import_stmt @ ''.'') @ rest = seg"
    unfolding name by simp
  then have p: "prefix (import_name_of import_stmt @ ''.'') seg"
    using prefixI by blast
  have "suffix seg import_stmt"
    using last_split_fields[of "CHR ''/''" "[]" import_stmt] by (simp add: seg_def split_on_def)
  with p show ?thesis
    using prefix_imp_sublist sublist_of_suffix by blast
qed


lemma collect_imports_entry:
  "(n, g) \<in> set (collect_imports i lines) \<Longrightarrow>
     \<exists>k<length lines. n = Suc (i + k) \<and> re_match import_pattern (strip (lines ! k)) = Some g"
proof (induction lines arbitrary: i)
  case Nil
  then show ?case by simp
next
  case (Cons line rest)
  show ?case
  proof (cases "n = Suc i \<and> re_match import_pattern (strip line) = Some g")
    case True
    then show ?thesis by (intro exI[of _ 0]) simp
  next
    case False
    with Cons(2) have "(n, g) \<in> set (collect_imports (Suc i) rest)"
      by (auto split: option.splits)
    from Cons(1)[OF this] obtain k where "k < length rest" "n = Suc (Suc i + k)"
      "re_match import_pattern (strip (rest ! k)) = Some g" by blast
    then show ?thesis by (intro exI[of _ "Suc k"]) simp
  qed
qed

lemma getitem_in_range: "1 \<le> n \<Longrightarrow> n \<le> length xs \<Longrightarrow> getitem xs (int n - 1) = Inr (xs ! (n - 1))"
  by (auto simp: getitem_def Let_def nat_diff_distrib')

lemma check_imports_findings:
  "\<forall>(n, g)\<in>set imps. g \<noteq> None \<and> 1 \<le> n \<and> n \<le> length content \<Longrightarrow>
   \<exists>found. check_imports content imps = Inr found
     \<and> (\<forall>f\<in>set found. issue_type f = ''Unused Import''
           \<and> (\<exists>stmt. (line_number f, Some stmt) \<in> set imps
                  \<and> \<not> import_used (import_name_of stmt) content))"
proof (induction imps)
  case Nil
  then show ?case by simp
next
  case (Cons a imps)
  obtain n g where a: "a = (n, g)" by (cases a)
  with Cons(2) obtain stmt where g: "g = Some stmt" and n: "1 \<le> n" "n \<le> length content"
    by auto
  from Cons obtain found where
    rec: "check_imports content imps = Inr found" and
    fs: "\<forall>f\<in>set found. issue_type f = ''Unused Import''
           \<and> (\<exists>stmt. (line_number f, Some stmt) \<in> set imps
                  \<and> \<not> import_used (import_name_of stmt) content)"
    by auto
  show ?case
  proof (cases "import_used (import_name_of stmt) content")
    case True
    with rec fs a g show ?thesis by auto
  next
    case False
    have "check_imports content (a # imps) =
        Inr (unused_import_issue n stmt (strip (content ! (n - 1))) # found)"
      using False rec a g getitem_in_range[OF n] by simp
    moreover have "issue_type (unused_import_issue n stmt x) = ''Unused Import''"
      "line_number (unused_import_issue n stmt x) = n" for x
      by (simp_all add: unused_import_issue_def)
    ultimately show ?thesis using fs False a g by auto
  qed
qed

lemma detect_unused_imports_findings:
  "\<exists>found. detect_unused_imports content = Inr found
     \<and> (\<forall>f\<in>set found. issue_type f = ''Unused Import''
           \<and> 1 \<le> line_number f \<and> line_number f \<le> length content
           \<and> (\<exists>stmt. re_match import_pattern (strip (content ! (line_number f - 1))) = Some (Some stmt)
                  \<and> \<not> import_used (import_name_of stmt) content))"
proof -
  have ok: "\<forall>(n, g)\<in>set (collect_imports 0 content). g \<noteq> None \<and> 1 \<le> n \<and> n \<le> length content"
  proof (clarify, intro conjI)
    fix n g assume m: "(n, g) \<in> set (collect_imports 0 content)"
    from collect_imports_entry[OF m] obtain k where
      k: "k < length content" "n = Suc (0 + k)"
        "re_match import_pattern (strip (content ! k)) = Some g" by blast
    from re_match_import[OF k(3)] show "g \<noteq> None" by auto
    from k show "1 \<le> n" "n \<le> length content" by auto
  qed
  from check_imports_findings[OF ok] obtain found where
    res: "check_imports content (collect_imports 0 content) = Inr found" and
    fs: "\<forall>f\<in>set found. issue_type f = ''Unused Import''
           \<and> (\<exists>stmt. (line_number f, Some stmt) \<in> set (collect_imports 0 content)
                  \<and> \<not> import_used (import_name_of stmt) content)"
    by blast
  have "issue_type f = ''Unused Import''
           \<and> 1 \<le> line_number f \<and> line_number f \<le> length content
           \<and> (\<exists>stmt. re_match import_pattern (strip (content ! (line_number f - 1))) = Some (Some stmt)
                  \<and> \<not> import_used (import_name_of stmt) content)" if "f \<in> set found" for f
  proof -
    from fs that obtain stmt where
      t: "issue_type f = ''Unused Import''" and
      m: "(line_number f, Some stmt) \<in> set (collect_imports 0 content)" and
      u: "\<not> import_used (import_name_of stmt) content" by blast
    from collect_imports_entry[OF m] obtain k where
      k: "k < length content" "line_number f = Suc (0 + k)"
        "re_match import_pattern (strip (content ! k)) = Some (Some stmt)" by blast
    with t u show ?thesis by auto
  qed
  with res show ?thesis unfolding detect_unused_imports_def by blast
qed

text \<open>
  Claim C9. Let the trimmed line of index \<open>i\<close> match the import pattern with a path
  whose last segment holds a dot. Then the name taken from the path, followed by a dot,
  is a part of that very line, which the usage scan reads like every other line; the
  pass returns, and none of its findings is at line \<open>i + 1\<close>.
\<close>

theorem import_with_extension_never_reported:
  assumes "i < length content"
    and "re_match import_pattern (strip (content ! i)) = Some (Some import_stmt)"
    and "CHR ''.'' \<in> set (last (split_on CHR ''/'' import_stmt))"
  shows "sublist (import_name_of import_stmt @ ''.'') (content ! i)
       \<and> (\<exists>found. detect_unused_imports content = Inr found
              \<and> filter (\<lambda>f. line_number f = i + 1) found = [])"
proof -
  from re_match_import[OF assms(2)] have "sublist import_stmt (strip (content ! i))" by simp
  then have "sublist import_stmt (content ! i)"
    using sublist_strip sublist_order.order_trans by blast
  with import_name_dot[OF assms(3)]
  have sub: "sublist (import_name_of import_stmt @ ''.'') (content ! i)"
    using sublist_order.order_trans by blast
  with assms(1) have used: "import_used (import_name_of import_stmt) content"
    unfolding import_used_def list_ex_iff by (meson nth_mem)
  from detect_unused_imports_findings[of content] obtain found where
    res: "detect_unused_imports content = Inr found" and
    fs: "\<forall>f\<in>set found.
           (\<exists>stmt. re_match import_pattern (strip (content ! (line_number f - 1))) = Some (Some stmt)
                  \<and> \<not> import_used (import_name_of stmt) content)"
    by blast
  have "line_number f \<noteq> i + 1" if "f \<in> set found" for f
  proof
    assume "line_number f = i + 1"
    with fs that assms(2) used show False by auto
  qed
  then have "filter (\<lambda>f. line_number f = i + 1) found = []"
    by (auto simp: filter_empty_conv)
  with sub res show ?thesis by blast
qed

theorem import_with_extension_never_reported_witness:
  "(0::nat) < length [''import '' @ [CHR 0x22] @ ''lib/util.dart'' @ [CHR 0x22] @ '';'']
   \<and> re_match import_pattern
        (strip ([''import '' @ [CHR 0x22] @ ''lib/util.dart'' @ [CHR 0x22] @ '';''] ! 0))
        = Some (Some ''lib/util.dart'')
   \<and> CHR ''.'' \<in> set (last (split_on CHR ''/'' ''lib/util.dart''))
   \<and> sublist (import_name_of ''lib/util.dart'' @ ''.'')
        ([''import '' @ [CHR 0x22] @ ''lib/util.dart'' @ [CHR 0x22] @ '';''] ! 0)
   \<and> (\<exists>found. detect_unused_imports
                  [''import '' @ [CHR 0x22] @ ''lib/util.dart'' @ [CHR 0x22] @ '';''] = Inr found
          \<and> filter (\<lambda>f. line_number f = 0 + 1) found = [])"
proof -
  let ?content = "[''import '' @ [CHR 0x22] @ ''lib/util.dart'' @ [CHR 0x22] @ '';'']"
  have h1: "(0::nat) < length ?content" by simp
  have h2: "re_match import_pattern (strip (?content ! 0)) = Some (Some ''lib/util.dart'')"
    by code_simp
  have h3: "CHR ''.'' \<in> set (last (split_on CHR ''/'' ''lib/util.dart''))"
    by code_simp
  from import_with_extension_never_reported[OF h1 h2 h3] h1 h2 h3 show ?thesis by blast
qed

section \<open>The long-method pass\<close>

text \<open>What one iteration does when the start it works with is a line of the file.\<close>

lemma long_step_result:
  assumes "i < length content"
    and "\<forall>start. method_start st = Some start \<longrightarrow> 1 \<le> start \<and> start \<le> i"
  shows "\<exists>st'. long_step content i line st = Inr st'
     \<and> (lm_issues st' = lm_issues st
          \<or> (\<exists>start. method_start st = Some start
                \<and> 20 < method_length i start
                \<and> lm_issues st' = lm_issues st @
                     [long_method_issue start (method_length i start)
                        (strip (content ! (start - 1)))]))
     \<and> (method_start st' = None \<or> method_start st' = method_start st
          \<or> method_start st = None \<and> method_start st' = Some (i + 1)
             \<and> 0 < brace_delta (strip line))"
proof (cases "method_start st = None \<and> re_match method_pattern (strip line) \<noteq> None")
  case True
  show ?thesis
  proof (cases "brace_delta (strip line) \<le> 0")
    case le: True
    have "long_step content i line st =
        Inr (st\<lparr>method_start := None, brace_count := brace_delta (strip line)\<rparr>)"
      using True le by (simp add: long_step_def Let_def method_length_def)
    then show ?thesis by simp
  next
    case False
    have "long_step content i line st =
        Inr (st\<lparr>method_start := Some (i + 1), brace_count := brace_delta (strip line)\<rparr>)"
      using True False by (simp add: long_step_def Let_def)
    with True False show ?thesis by simp
  qed
next
  case False
  show ?thesis
  proof (cases "method_start st")
    case None
    with False have "long_step content i line st = Inr st"
      by (simp add: long_step_def Let_def)
    then show ?thesis by simp
  next
    case (Some start)
    with assms(2) have s: "1 \<le> start" "start \<le> i" by auto
    with assms(1) have g: "getitem content (int start - 1) = Inr (content ! (start - 1))"
      by (intro getitem_in_range) auto
    let ?bc = "brace_count st + brace_delta (strip line)"
    show ?thesis
    proof (cases "?bc \<le> 0")
      case le: True
      show ?thesis
      proof (cases "20 < method_length i start")
        case True
        have "long_step content i line st =
            Inr (st\<lparr>brace_count := ?bc,
                    lm_issues := lm_issues st @
                      [long_method_issue start (method_length i start)
                         (strip (content ! (start - 1)))],
                    method_start := None\<rparr>)"
          using Some le True g by (simp add: long_step_def Let_def)
        with Some s True show ?thesis by auto
      next
        case False
        have "long_step content i line st = Inr (st\<lparr>brace_count := ?bc, method_start := None\<rparr>)"
          using Some le False by (simp add: long_step_def Let_def)
        then show ?thesis by simp
      qed
    next
      case False
      have "long_step content i line st = Inr (st\<lparr>brace_count := ?bc\<rparr>)"
        using Some False by (simp add: long_step_def Let_def)
      then show ?thesis by simp
    qed
  qed
qed

lemma long_step_invariant:
  assumes "i < length content"
    and "i \<in> K \<longrightarrow> brace_delta (strip line) \<le> 0"
    and "\<forall>start. method_start st = Some start \<longrightarrow> 1 \<le> start \<and> start \<le> i \<and> start - 1 \<notin> K"
    and "\<forall>f\<in>set (lm_issues st). 1 \<le> line_number f \<and> line_number f \<le> i
           \<and> line_number f - 1 \<notin> K \<and> issue_type f = ''Long Method''"
  shows "\<exists>st'. long_step content i line st = Inr st'
     \<and> (\<forall>start. method_start st' = Some start \<longrightarrow> 1 \<le> start \<and> start \<le> Suc i \<and> start - 1 \<notin> K)
     \<and> (\<forall>f\<in>set (lm_issues st'). 1 \<le> line_number f \<and> line_number f \<le> Suc i
           \<and> line_number f - 1 \<notin> K \<and> issue_type f = ''Long Method'')"
proof -
  from assms(3) have ok: "\<forall>start. method_start st = Some start \<longrightarrow> 1 \<le> start \<and> start \<le> i"
    by blast
  from long_step_result[OF assms(1) ok, of line] obtain st' where
    res: "long_step content i line st = Inr st'" and
    iss: "lm_issues st' = lm_issues st
          \<or> (\<exists>start. method_start st = Some start
                \<and> 20 < method_length i start
                \<and> lm_issues st' = lm_issues st @
                     [long_method_issue start (method_length i start)
                        (strip (content ! (start - 1)))])" and
    ms: "method_start st' = None \<or> method_start st' = method_start st
          \<or> method_start st = None \<and> method_start st' = Some (i + 1)
             \<and> 0 < brace_delta (strip line)"
    by blast
  have a: "\<forall>start. method_start st' = Some start \<longrightarrow> 1 \<le> start \<and> start \<le> Suc i \<and> start - 1 \<notin> K"
    using ms assms(2,3) by auto
  have b: "\<forall>f\<in>set (lm_issues st'). 1 \<le> line_number f \<and> line_number f \<le> Suc i
           \<and> line_number f - 1 \<notin> K \<and> issue_type f = ''Long Method''"
    using iss
  proof
    assume "lm_issues st' = lm_issues st"
    with assms(4) show ?thesis by auto
  next
    assume "\<exists>start. method_start st = Some start
                \<and> 20 < method_length i start
                \<and> lm_issues st' = lm_issues st @
                     [long_method_issue start (method_length i start)
                        (strip (content ! (start - 1)))]"
    then obtain start where s: "method_start st = Some start" and
      l: "lm_issues st' = lm_issues st @
                     [long_method_issue start (method_length i start)
                        (strip (content ! (start - 1)))]" by blast
    from s assms(3) have "1 \<le> start \<and> start \<le> i \<and> start - 1 \<notin> K" by blast
    with l assms(4) show ?thesis by (auto simp: long_method_issue_def)
  qed
  from res a b show ?thesis by blast
qed

lemma long_loop_invariant:
  assumes "\<forall>k\<in>K. k < length content \<longrightarrow> brace_delta (strip (content ! k)) \<le> 0"
  shows "rest = drop i content \<Longrightarrow> i \<le> length content \<Longrightarrow>
     \<forall>start. method_start st = Some start \<longrightarrow> 1 \<le> start \<and> start \<le> i \<and> start - 1 \<notin> K \<Longrightarrow>
     \<forall>f\<in>set (lm_issues st). 1 \<le> line_number f \<and> line_number f \<le> i
           \<and> line_number f - 1 \<notin> K \<and> issue_type f = ''Long Method'' \<Longrightarrow>
     \<exists>st'. long_loop content i rest st = Inr st'
       \<and> (\<forall>f\<in>set (lm_issues st'). 1 \<le> line_number f \<and> line_number f \<le> length content
             \<and> line_number f - 1 \<notin> K \<and> issue_type f = ''Long Method'')"
proof (induction rest arbitrary: i st)
  case Nil
  then have "i = length content" by simp
  with Nil(4) show ?case by simp
next
  case (Cons line rest)
  from Cons(2) have i: "i < length content"
    by (metis drop_all list.distinct(1) not_le)
  from Cons(2) i have line: "line = content ! i" and rest: "rest = drop (Suc i) content"
    by (simp_all add: Cons_nth_drop_Suc[symmetric])
  have d: "i \<in> K \<longrightarrow> brace_delta (strip line) \<le> 0"
    using assms i line by blast
  from long_step_invariant[OF i d Cons(4) Cons(5)] obtain st1 where
    s: "long_step content i line st = Inr st1" and
    a: "\<forall>start. method_start st1 = Some start \<longrightarrow> 1 \<le> start \<and> start \<le> Suc i \<and> start - 1 \<notin> K" and
    b: "\<forall>f\<in>set (lm_issues st1). 1 \<le> line_number f \<and> line_number f \<le> Suc i
           \<and> line_number f - 1 \<notin> K \<and> issue_type f = ''Long Method''"
    by blast
  from i have "Suc i \<le> length content" by simp
  from Cons(1)[OF rest this a b] s show ?case by simp
qed

lemma detect_long_methods_findings:
  assumes "\<forall>k\<in>K. k < length content \<longrightarrow> brace_delta (strip (content ! k)) \<le> 0"
  shows "\<exists>found. detect_long_methods content = Inr found
       \<and> (\<forall>f\<in>set found. 1 \<le> line_number f \<and> line_number f \<le> length content
             \<and> line_number f - 1 \<notin> K \<and> issue_type f = ''Long Method'')"
proof -
  from long_loop_invariant[OF assms, of content 0
      "\<lparr>lm_issues = [], method_start = None, brace_count = 0\<rparr>"]
  obtain st' where "long_loop content 0 content \<lparr>lm_issues = [], method_start = None, brace_count = 0\<rparr> = Inr st'"
    "\<forall>f\<in>set (lm_issues st'). 1 \<le> line_number f \<and> line_number f \<le> length content
             \<and> line_number f - 1 \<notin> K \<and> issue_type f = ''Long Method''"
    by auto
  then show ?thesis by (simp add: detect_long_methods_def)
qed

text \<open>
  Claim C10. Let the trimmed line of index \<open>i\<close> match the method pattern and hold no more
  \<^verbatim>\<open>{\<close> than \<^verbatim>\<open>}\<close> (none at all, for a signature whose brace opens on a later
  line). An iteration that is not tracking a method starts and closes one on this line:
  the computed length is \<open>0\<close>, no finding is added and tracking is off again. So
  the pass, which returns on every file, has no finding at line \<open>i + 1\<close>.
\<close>

theorem signature_without_open_brace:
  assumes "i < length content"
    and "re_match method_pattern (strip (content ! i)) \<noteq> None"
    and "brace_delta (strip (content ! i)) \<le> 0"
    and "method_start st = None"
  shows "long_step content i (content ! i) st =
           Inr (st\<lparr>method_start := None, brace_count := brace_delta (strip (content ! i))\<rparr>)
       \<and> method_length i (i + 1) = 0
       \<and> (\<exists>found. detect_long_methods content = Inr found
              \<and> filter (\<lambda>f. line_number f = i + 1) found = [])"
proof -
  have step: "long_step content i (content ! i) st =
           Inr (st\<lparr>method_start := None, brace_count := brace_delta (strip (content ! i))\<rparr>)"
    using assms(2,3,4) by (simp add: long_step_def Let_def method_length_def)
  have len: "method_length i (i + 1) = 0"
    by (simp add: method_length_def)
  have "\<forall>k\<in>{i}. k < length content \<longrightarrow> brace_delta (strip (content ! k)) \<le> 0"
    using assms(3) by simp
  from detect_long_methods_findings[OF this] obtain found where
    res: "detect_long_methods content = Inr found" and
    fs: "\<forall>f\<in>set found. line_number f - 1 \<notin> {i}" by blast
  have "filter (\<lambda>f. line_number f = i + 1) found = []"
    using fs by (auto simp: filter_empty_conv)
  with step len res show ?thesis by blast
qed

theorem signature_without_open_brace_witness:
  "(0::nat) < length (''void build(int x)'' # ''{'' # replicate 25 ''x;'' @ [''}''])
   \<and> re_match method_pattern
        (strip ((''void build(int x)'' # ''{'' # replicate 25 ''x;'' @ [''}'']) ! 0)) \<noteq> None
   \<and> brace_delta (strip ((''void build(int x)'' # ''{'' # replicate 25 ''x;'' @ [''}'']) ! 0)) \<le> 0
   \<and> method_start \<lparr>lm_issues = [], method_start = None, brace_count = 0\<rparr> = None
   \<and> long_step (''void build(int x)'' # ''{'' # replicate 25 ''x;'' @ [''}'']) 0 ''void build(int x)''
        \<lparr>lm_issues = [], method_start = None, brace_count = 0\<rparr> =
        Inr \<lparr>lm_issues = [], method_start = None, brace_count = 0\<rparr>
   \<and> (\<exists>found. detect_long_methods (''void build(int x)'' # ''{'' # replicate 25 ''x;'' @ [''}''])
                 = Inr found
          \<and> filter (\<lambda>f. line_number f = 0 + 1) found = [])"
proof -
  let ?content = "''void build(int x)'' # ''{'' # replicate 25 ''x;'' @ [''}'']"
  let ?st = "\<lparr>lm_issues = [], method_start = None, brace_count = 0\<rparr>"
  have h1: "(0::nat) < length ?content" by simp
  have h2: "re_match method_pattern (strip (?content ! 0)) \<noteq> None" by code_simp
  have h3: "brace_delta (strip (?content ! 0)) \<le> 0" by code_simp
  have h4: "method_start ?st = None" by simp
  have d: "brace_delta (strip ''void build(int x)'') = 0" by code_simp
  from signature_without_open_brace[OF h1 h2 h3 h4] h1 h2 h3 h4 d show ?thesis
    by simp
qed

section \<open>The line on which a method closes\<close>






section \<open>The analysis of a file\<close>

lemma spec_duplicates_findings:
  assumes "f \<in> set (spec_duplicates content)"
  shows "1 \<le> line_number f \<and> line_number f \<le> length content \<and> issue_type f = ''Duplication''"
proof -
  from assms obtain i line where
    m: "(i, line) \<in> set (enumerate 0 content)" and
    f: "f = dup_finding (i + 1) (strip line) (dup_group_size content (strip line))"
    unfolding spec_duplicates_def by (auto split: if_splits)
  from m have "i < length content" by (simp add: in_set_enumerate_eq)
  with f show ?thesis by (simp add: dup_finding_def)
qed

lemma detect_duplicate_code_findings:
  assumes "f \<in> set (detect_duplicate_code content path)"
  shows "1 \<le> line_number f \<and> line_number f \<le> length content \<and> issue_type f = ''Duplication''"
proof -
  from assms have "f \<in> set (spec_duplicates content)"
    using detect_duplicate_code_mset[of content path] by (metis set_mset_mset)
  then show ?thesis by (rule spec_duplicates_findings)
qed

lemma bug_loop_findings:
  "f \<in> set (bug_loop i lines) \<Longrightarrow>
     i < line_number f \<and> line_number f \<le> i + length lines \<and> issue_type f = ''Potential Bug''"
proof (induction lines arbitrary: i)
  case Nil
  then show ?case by simp
next
  case (Cons line rest)
  from Cons(2) consider "f \<in> set (bug_step i line)" | "f \<in> set (bug_loop (Suc i) rest)"
    by auto
  then show ?case
  proof cases
    case 1
    then show ?thesis
      by (auto simp: bug_step_def Let_def null_check_issue_def empty_catch_issue_def
               split: if_splits)
  next
    case 2
    from Cons(1)[OF 2] show ?thesis by simp
  qed
qed

lemma calculate_metrics_total: "\<exists>m. calculate_metrics content found = Inr m"
  by (subst calculate_metrics_result) (rule exI, rule refl)

lemma analyze_file_findings:
  "\<exists>fa. analyze_file path content = Inr fa
     \<and> (\<exists>m. calculate_metrics content (issues fa) = Inr m \<and> metrics fa = m)
     \<and> (\<forall>f\<in>set (issues fa). 1 \<le> line_number f \<and> line_number f \<le> length content
           \<and> issue_type f \<in> issue_types)"
proof -
  from detect_unused_imports_findings[of content] obtain unused where
    u: "detect_unused_imports content = Inr unused" and
    uf: "\<forall>f\<in>set unused. issue_type f = ''Unused Import''
           \<and> 1 \<le> line_number f \<and> line_number f \<le> length content" by blast
  have "\<forall>k\<in>{}. k < length content \<longrightarrow> brace_delta (strip (content ! k)) \<le> 0" by simp
  from detect_long_methods_findings[OF this] obtain long where
    l: "detect_long_methods content = Inr long" and
    lf: "\<forall>f\<in>set long. 1 \<le> line_number f \<and> line_number f \<le> length content
             \<and> issue_type f = ''Long Method''" by blast
  from dead_loop_findings[of content 0 content] obtain dead where
    d: "detect_dead_code content = Inr dead" and
    df: "\<forall>f\<in>set dead. 0 < line_number f \<and> line_number f \<le> 0 + length content
                          \<and> issue_type f = ''Dead Code''"
    unfolding detect_dead_code_def by blast
  define found where
    "found = detect_duplicate_code content path @ unused @ long @ dead @ detect_potential_bugs content"
  obtain m where m: "calculate_metrics content found = Inr m"
    using calculate_metrics_total by blast
  have res: "analyze_file path content = Inr \<lparr>file_path = path, issues = found, metrics = m\<rparr>"
    using u l d m by (simp add: analyze_file_def found_def Let_def)
  have "1 \<le> line_number f \<and> line_number f \<le> length content \<and> issue_type f \<in> issue_types"
    if "f \<in> set found" for f
  proof -
    from that consider "f \<in> set (detect_duplicate_code content path)" | "f \<in> set unused"
      | "f \<in> set long" | "f \<in> set dead" | "f \<in> set (bug_loop 0 content)"
      unfolding found_def detect_potential_bugs_def by auto
    then show ?thesis
    proof cases
      case 1
      from detect_duplicate_code_findings[OF 1] show ?thesis by (simp add: issue_types_def)
    next
      case 2
      with uf show ?thesis by (simp add: issue_types_def)
    next
      case 3
      with lf show ?thesis by (simp add: issue_types_def)
    next
      case 4
      with df show ?thesis by (auto simp: issue_types_def)
    next
      case 5
      from bug_loop_findings[OF 5] show ?thesis by (auto simp: issue_types_def)
    qed
  qed
  with res m show ?thesis by simp
qed

text \<open>
  Claim C7. The analysis of a file returns, whatever its lines are, and every finding of
  the five passes has a line number from \<open>1\<close> to the number of lines of the file.
\<close>

theorem line_numbers_in_file:
  "\<exists>fa. analyze_file path content = Inr fa
     \<and> (\<forall>f\<in>set (issues fa). 1 \<le> line_number f \<and> line_number f \<le> length content)"
  using analyze_file_findings[of path content] by blast

theorem line_numbers_in_file_witness:
  "\<exists>fa. analyze_file ''lib/a.dart''
          [''void _helper() {'', ''  if (x != null) {'', ''  } catch (e) { }'', ''}''] = Inr fa
     \<and> map line_number (issues fa) = [1, 2, 3]
     \<and> list_all (\<lambda>f. 1 \<le> line_number f \<and> line_number f \<le> 4) (issues fa)"
proof -
  define content where
    "content = [''void _helper() {'', ''  if (x != null) {'', ''  } catch (e) { }'', ''}'']"
  define found where
    "found = [dead_code_issue 1 ''_helper'' ''void _helper() {'',
       null_check_issue 2 ''if (x != null) {'', empty_catch_issue 3 ''} catch (e) { }'']"
  have p1: "detect_duplicate_code content ''lib/a.dart'' = []"
    unfolding content_def by code_simp
  have p2: "detect_unused_imports content = Inr []"
    unfolding content_def by code_simp
  have p3: "detect_long_methods content = Inr []"
    unfolding content_def by code_simp
  have p4: "detect_dead_code content = Inr [dead_code_issue 1 ''_helper'' ''void _helper() {'']"
    unfolding content_def by code_simp
  have p5: "detect_potential_bugs content =
      [null_check_issue 2 ''if (x != null) {'', empty_catch_issue 3 ''} catch (e) { }'']"
    unfolding content_def by code_simp
  from calculate_metrics_total[of content found]
  obtain m where "calculate_metrics content found = Inr m" ..
  then have e: "analyze_file ''lib/a.dart'' content =
      Inr \<lparr>file_path = ''lib/a.dart'', issues = found, metrics = m\<rparr>"
    by (simp add: analyze_file_def p1 p2 p3 p4 p5 Let_def found_def)
  from line_numbers_in_file[of "''lib/a.dart''" content] obtain fa where
    a: "analyze_file ''lib/a.dart'' content = Inr fa" and
    b: "\<forall>f\<in>set (issues fa). 1 \<le> line_number f \<and> line_number f \<le> length content"
    by (elim exE conjE)
  from e a have "issues fa = found" by simp
  then have c: "map line_number (issues fa) = [1, 2, 3]"
    by (simp add: found_def dead_code_issue_def null_check_issue_def empty_catch_issue_def)
  have "length content = 4" by (simp add: content_def)
  with b have d: "list_all (\<lambda>f. 1 \<le> line_number f \<and> line_number f \<le> 4) (issues fa)"
    by (simp add: list_all_iff)
  from a c d show ?thesis
    unfolding content_def by (intro exI[of _ fa] conjI)
qed

section \<open>The counts of the categories\<close>

lemma dict_upd_new: "k \<notin> fst ` set d \<Longrightarrow> dict_upd k f d = d @ [(k, f None)]"
  by (induction d) auto

lemma sum_dict_incr: "sum_list (map snd (dict_incr k d)) = Suc (sum_list (map snd d))"
  unfolding dict_incr_def by (induction d) auto

lemma keys_dict_incr: "fst ` set (dict_incr k d) = insert k (fst ` set d)"
proof -
  have "set (map fst (dict_incr k d)) = insert k (set (map fst d))"
    unfolding dict_incr_def keys_dict_upd by auto
  then show ?thesis by simp
qed

lemma fold_dict_incr:
  "distinct (map fst d) \<Longrightarrow>
     distinct (map fst (fold (\<lambda>issue counts. dict_incr (issue_type issue) counts) found d))
   \<and> fst ` set (fold (\<lambda>issue counts. dict_incr (issue_type issue) counts) found d)
       = fst ` set d \<union> issue_type ` set found
   \<and> sum_list (map snd (fold (\<lambda>issue counts. dict_incr (issue_type issue) counts) found d))
       = sum_list (map snd d) + length found"
proof (induction found arbitrary: d)
  case Nil
  then show ?case by simp
next
  case (Cons a found)
  have "distinct (map fst (dict_incr (issue_type a) d))"
    unfolding dict_incr_def using Cons(2) by (rule distinct_dict_upd)
  from Cons(1)[OF this] show ?case
    by (simp add: sum_dict_incr keys_dict_incr)
qed

lemma count_issues_facts:
  "distinct (map fst (count_issues found))
   \<and> fst ` set (count_issues found) = issue_type ` set found
   \<and> sum_list (map snd (count_issues found)) = length found"
  using fold_dict_incr[of "[]" found] by (simp add: count_issues_def)

lemma fold_dict_set_new:
  "distinct (map fst counts) \<Longrightarrow> inj_on count_key (fst ` set counts) \<Longrightarrow>
   \<forall>t\<in>fst ` set counts. count_key t \<notin> fst ` set m \<Longrightarrow>
   fold (\<lambda>(t, n) m. dict_set (count_key t) (IntNum (int n)) m) counts m =
     m @ map (\<lambda>(t, n). (count_key t, IntNum (int n))) counts"
proof (induction counts arbitrary: m)
  case Nil
  then show ?case by simp
next
  case (Cons a counts)
  obtain t n where a: "a = (t, n)" by (cases a)
  let ?m = "m @ [(count_key t, IntNum (int n))]"
  have new: "dict_set (count_key t) (IntNum (int n)) m = ?m"
    using Cons(4) a by (simp add: dict_set_def dict_upd_new)
  have d: "distinct (map fst counts)" using Cons(2) by simp
  have i: "inj_on count_key (fst ` set counts)"
    using Cons(3) by (simp add: inj_on_def)
  have "count_key t' \<notin> fst ` set ?m" if "t' \<in> fst ` set counts" for t'
  proof -
    from that Cons(2) a have "t' \<noteq> t" by auto
    with Cons(3) that a have "count_key t' \<noteq> count_key t"
      by (auto simp: inj_on_def)
    moreover from Cons(4) that have "count_key t' \<notin> fst ` set m" by auto
    ultimately show ?thesis by auto
  qed
  then have "\<forall>t\<in>fst ` set counts. count_key t \<notin> fst ` set ?m" by blast
  from Cons(1)[OF d i this] show ?case by (simp add: a new)
qed

lemma count_key_values:
  "count_key ''Duplication'' = ''duplication_count''"
  "count_key ''Unused Import'' = ''unused_import_count''"
  "count_key ''Long Method'' = ''long_method_count''"
  "count_key ''Dead Code'' = ''dead_code_count''"
  "count_key ''Potential Bug'' = ''potential_bug_count''"
  by code_simp+

lemma inj_on_count_key: "inj_on count_key issue_types"
  by (simp add: issue_types_def count_key_values)

lemma count_key_suffix: "suffix ''_count'' (count_key t)"
  by (simp add: count_key_def suffix_def)

lemma base_keys_not_count:
  "\<not> suffix ''_count'' ''total_lines''" "\<not> suffix ''_count'' ''code_lines''"
  "\<not> suffix ''_count'' ''comment_lines''" "\<not> suffix ''_count'' ''comment_density''"
  by code_simp+

lemma filter_count_entries:
  assumes "\<forall>k\<in>fst ` set base. \<not> suffix ''_count'' k"
  shows "filter (\<lambda>(k, v). suffix ''_count'' k)
           (base @ map (\<lambda>(t, n). (count_key t, IntNum (int n))) counts) =
         map (\<lambda>(t, n). (count_key t, IntNum (int n))) counts"
proof -
  have "filter (\<lambda>(k, v). suffix ''_count'' k) base = []"
    using assms by (auto simp: filter_empty_conv)
  moreover have "filter (\<lambda>(k, v). suffix ''_count'' k)
      (map (\<lambda>(t, n). (count_key t, IntNum (int n))) counts) =
      map (\<lambda>(t, n). (count_key t, IntNum (int n))) counts"
    by (auto simp: filter_id_conv count_key_suffix)
  ultimately show ?thesis by simp
qed

text \<open>
  Claim C8. In the metrics of a file the entries whose key ends in \<^verbatim>\<open>_count\<close> are,
  in their order, one for each issue type among the findings of the file: the key is
  the type in small letters with \<^verbatim>\<open>_\<close> for each space and \<^verbatim>\<open>_count\<close> after it, no
  two keys are the same, the value is an integer, and these integers add up to the
  number of findings.
\<close>

theorem category_counts_sum:
  "\<exists>fa counts. analyze_file path content = Inr fa
     \<and> filter (\<lambda>(k, v). suffix ''_count'' k) (metrics fa) =
         map (\<lambda>(t, n). (count_key t, IntNum (int n))) counts
     \<and> distinct (map fst counts)
     \<and> distinct (map (\<lambda>(t, n). count_key t) counts)
     \<and> set (map fst counts) = issue_type ` set (issues fa)
     \<and> sum_list (map snd counts) = length (issues fa)"
proof -
  from analyze_file_findings[of path content] obtain fa where
    a: "analyze_file path content = Inr fa" and
    m: "calculate_metrics content (issues fa) = Inr (metrics fa)" and
    t: "\<forall>f\<in>set (issues fa). issue_type f \<in> issue_types"
    by auto
  define counts where "counts = count_issues (issues fa)"
  define base where "base =
     [(''total_lines'', IntNum (int (length content))),
      (''code_lines'', IntNum (int (length (filter is_code_line content)))),
      (''comment_lines'', IntNum (int (length (filter is_comment_line content)))),
      (''comment_density'',
         if length (filter is_code_line content) = 0 then IntNum 0
         else FloatNum (FloatMul
                (FloatDiv (int (length (filter is_comment_line content)))
                          (int (length (filter is_code_line content)))) 100))]"
  from count_issues_facts[of "issues fa"] have
    d: "distinct (map fst counts)" and
    k: "fst ` set counts = issue_type ` set (issues fa)" and
    n: "sum_list (map snd counts) = length (issues fa)"
    by (simp_all add: counts_def)
  from k t have sub: "fst ` set counts \<subseteq> issue_types" by auto
  then have inj: "inj_on count_key (fst ` set counts)"
    using inj_on_count_key by (rule inj_on_subset[rotated])
  have nb: "\<forall>k\<in>fst ` set base. \<not> suffix ''_count'' k"
    by (simp add: base_def base_keys_not_count)
  then have "\<forall>t\<in>fst ` set counts. count_key t \<notin> fst ` set base"
    using count_key_suffix by blast
  from fold_dict_set_new[OF d inj this]
  have "metrics fa = base @ map (\<lambda>(t, n). (count_key t, IntNum (int n))) counts"
    using m unfolding calculate_metrics_result counts_def base_def by simp
  then have f: "filter (\<lambda>(k, v). suffix ''_count'' k) (metrics fa) =
         map (\<lambda>(t, n). (count_key t, IntNum (int n))) counts"
    using filter_count_entries[OF nb] by simp
  have e: "map (\<lambda>(t, n). count_key t) counts = map count_key (map fst counts)"
    by (simp add: case_prod_beta comp_def)
  have "distinct (map count_key (map fst counts))"
    using d inj by (subst distinct_map) simp
  then have dk: "distinct (map (\<lambda>(t, n). count_key t) counts)"
    unfolding e .
  from k have "set (map fst counts) = issue_type ` set (issues fa)" by simp
  with a f d dk n show ?thesis by blast
qed

end
